theory Spec2Isabelle
  imports Complex_Main "HOL-Library.Product_Lexorder" "HOL-Library.Log_Nat" "HOL-Library.Sublist"
    "HOL-Library.Multiset"
begin

section \<open>The graph service of celebrity-hunt\<close>

text \<open>
  A shallow embedding of \<^verbatim>\<open>backend/services/graph.py\<close>: the access score calculator
  \<^verbatim>\<open>calculate_access_score\<close>, the path finder \<^verbatim>\<open>find_best_path\<close> and the projection
  \<^verbatim>\<open>get_graph_data\<close> for the visualisation.

  Each of the three Python functions starts by reading the rows of the table \<^verbatim>\<open>nodes\<close>
  that belong to one celebrity; everything after that is a computation on the rows read.
  The model takes the rows read (the \<^verbatim>\<open>.data\<close> of the query) as its argument
  \<open>nodes\<close>, in the order in which the database returned them.
\<close>

subsection \<open>Rows of the table of nodes\<close>

text \<open>
  A row is a Python dict with one key per column. The integer columns are Python ints;
  the text columns that the code guards with \<^verbatim>\<open>or ""\<close> or reads with \<^verbatim>\<open>.get\<close> may hold
  \<^verbatim>\<open>None\<close>, which is \<open>None\<close> here. The column \<^verbatim>\<open>id\<close> is \<open>id_node\<close>; it is text, so
  that \<^verbatim>\<open>str(node["id"])\<close> is the identifier itself. The query of the access score selects
  three columns only, the three that \<open>calculate_access_score\<close> reads.
\<close>

record node =
  id_node :: string
  celebrity_id :: string
  person_name :: string
  role :: "string option"
  relationship_type :: "string option"
  hop_distance :: int
  warm_score :: int
  why_warm :: "string option"
  contact_info :: "string option"

subsection \<open>Exceptions\<close>

datatype error = OverflowError | ZeroDivisionError | IndexError

definition and_then :: "error + 'a \<Rightarrow> ('a \<Rightarrow> error + 'b) \<Rightarrow> error + 'b" where
  "and_then m f = (case m of Inl e \<Rightarrow> Inl e | Inr x \<Rightarrow> f x)"

subsection \<open>Python floats\<close>

text \<open>
  A finite Python float is an IEEE 754 binary64 number, modelled by the rational number it
  denotes. Every operation rounds the exact result to the nearest binary64 number, ties to
  the even significand: 53 significant bits for a normal number, a multiple of
  \<open>2 powi (-1074)\<close> below \<open>2 powi (-1022)\<close>.

  \<open>ilog2 x\<close> is the binary exponent \<open>\<lfloor>log 2 x\<rfloor>\<close> of a positive rational.
\<close>

definition round_half_even :: "rat \<Rightarrow> int" where
  "round_half_even x =
     (let f = \<lfloor>x\<rfloor>; r = x - of_int f
      in if r < 1 / 2 then f
         else if 1 / 2 < r then f + 1
         else if even f then f else f + 1)"

definition ilog2 :: "rat \<Rightarrow> int" where
  "ilog2 x =
     (let p = fst (quotient_of x); q = snd (quotient_of x); d = bitlen p - bitlen q
      in if 2 powi d \<le> x then d else d - 1)"

definition b64_exponent :: "rat \<Rightarrow> int" where
  \<comment> \<open>the exponent of the binade of \<open>x\<close>, which is at least that of the subnormal numbers\<close>
  "b64_exponent x = max (ilog2 \<bar>x\<bar>) (- 1022)"

definition b64_round :: "rat \<Rightarrow> rat" where
  "b64_round x =
     (if x = 0 then 0
      else let q = 2 powi (b64_exponent x - 52)
           in of_int (round_half_even (x / q)) * q)"

text \<open>
  A result of magnitude \<open>2 ^ 1024\<close> or more is no finite float. Integer division raises
  \<^verbatim>\<open>OverflowError\<close> there, and so does the conversion of an int to a float. A float
  operation returns an infinity instead, on which the conversion \<^verbatim>\<open>int(...)\<close> that ends
  both computations of this module raises \<^verbatim>\<open>OverflowError\<close>; no operation of the module
  takes an infinity to a finite number, so the model raises at once.
\<close>

definition binary64 :: "rat \<Rightarrow> error + rat" where
  "binary64 x = (let y = b64_round x in if 2 ^ 1024 \<le> \<bar>y\<bar> then Inl OverflowError else Inr y)"

definition truediv :: "int \<Rightarrow> int \<Rightarrow> error + rat" where
  \<comment> \<open>\<^verbatim>\<open>a / b\<close> on ints: the correctly rounded quotient\<close>
  "truediv a b = (if b = 0 then Inl ZeroDivisionError else binary64 (of_int a / of_int b))"

definition float_of_int :: "int \<Rightarrow> error + rat" where
  \<comment> \<open>the conversion of an int operand of a float operation\<close>
  "float_of_int i = binary64 (of_int i)"

definition fmul :: "rat \<Rightarrow> rat \<Rightarrow> error + rat" where
  "fmul x y = binary64 (x * y)"

definition fadd :: "rat \<Rightarrow> rat \<Rightarrow> error + rat" where
  "fadd x y = binary64 (x + y)"

definition float_0_6 :: rat where
  \<comment> \<open>the literal \<^verbatim>\<open>0.6\<close>, which is the float \<^verbatim>\<open>0x1.3333333333333p-1\<close>\<close>
  "float_0_6 = 5404319552844595 / 9007199254740992"

definition py_int :: "rat \<Rightarrow> int" where
  \<comment> \<open>\<^verbatim>\<open>int(x)\<close> on a finite float truncates towards zero\<close>
  "py_int x = (if 0 \<le> x then \<lfloor>x\<rfloor> else \<lceil>x\<rceil>)"

subsection \<open>Access score\<close>

definition calculate_access_score :: "node list \<Rightarrow> error + int" where
  "calculate_access_score nodes =
     (if nodes = [] then Inr 30
      else
        and_then (truediv (sum_list (map warm_score nodes)) (int (length nodes))) (\<lambda>avg_warm.
        let direct_nodes = filter (\<lambda>n. hop_distance n = 1) nodes;
            direct_bonus = min (int (length direct_nodes) * 5) 20;
            rel_types = set (map relationship_type nodes);
            variety_bonus = int (card rel_types) * 3
        in
        and_then (fmul avg_warm float_0_6) (\<lambda>base.
        and_then (float_of_int direct_bonus) (\<lambda>direct.
        and_then (fadd base direct) (\<lambda>partial.
        and_then (float_of_int variety_bonus) (\<lambda>variety.
        and_then (fadd partial variety) (\<lambda>total.
        let score = py_int total
        in Inr (min (max score 10) 99))))))))"

subsection \<open>Strings\<close>

text \<open>
  A Python string is a sequence of code points, written here as a list of characters.
  The code joins strings, tests them for emptiness and searches one for a contiguous
  block of another (\<^verbatim>\<open>a in b\<close>, which is \<^const>\<open>sublist\<close>); none of this looks inside a
  character. Only \<^verbatim>\<open>str.lower\<close> does. It is a function of the language and not of this
  module, and the functions below take it as the parameter \<open>lower\<close>, of which nothing is
  assumed.

  On text whose code points are all below 256, each written as the character of that
  code, \<^verbatim>\<open>str.lower\<close> works character by character: it adds 32 to the code of a capital
  letter, which is a code from 65 to 90 (\<^verbatim>\<open>A\<close> to \<^verbatim>\<open>Z\<close>) or from 192 to 222 other than 215
  (the multiplication sign), and leaves every other character as it is. This is
  \<open>lower_latin1\<close>, the function that the examples use.
\<close>

definition lower_latin1_char :: "char \<Rightarrow> char" where
  "lower_latin1_char c =
     (let k = (of_char c :: nat)
      in if (65 \<le> k \<and> k \<le> 90) \<or> (192 \<le> k \<and> k \<le> 222 \<and> k \<noteq> 215)
         then char_of (k + 32) else c)"

definition lower_latin1 :: "string \<Rightarrow> string" where
  "lower_latin1 s = map lower_latin1_char s"

definition or_empty :: "string option \<Rightarrow> string" where
  \<comment> \<open>\<^verbatim>\<open>x or ""\<close>\<close>
  "or_empty x = (case x of None \<Rightarrow> [] | Some s \<Rightarrow> s)"

subsection \<open>Best path\<close>

text \<open>
  The requester's context is a dict read with \<^verbatim>\<open>.get("industry", "")\<close> and
  \<^verbatim>\<open>.get("connections", [])\<close>; the record holds the two values read, the defaults for a
  key that is missing. No other key is read. A missing context is \<open>None\<close>; an empty dict
  is falsy like \<^verbatim>\<open>None\<close> and reads the same two defaults, under which no score changes.
\<close>

record user_context =
  industry :: string
  connections :: "string list"

record scored_node = node +
  final_score :: int

record path_entry =
  p_person_name :: string
  p_role :: "string option"
  p_relationship_type :: "string option"
  p_hop :: int
  p_warm_score :: int
  p_why_warm :: "string option"
  p_contact_info :: "string option"
  p_node_id :: string

record node_summary =
  s_person_name :: string
  s_role :: "string option"
  s_warm_score :: int
  s_hop_distance :: int
  s_relationship_type :: "string option"
  s_contact_info :: "string option"
  s_node_id :: string

text \<open>
  The result dict has the keys \<^verbatim>\<open>entry_point\<close> and \<^verbatim>\<open>all_nodes\<close> only when there are
  nodes: \<open>None\<close> is a missing key.
\<close>

record path_result =
  path :: "path_entry list"
  total_hops :: int
  path_score :: int
  entry_point :: "path_entry option"
  all_nodes :: "node_summary list option"

definition node_text :: "(string \<Rightarrow> string) \<Rightarrow> node \<Rightarrow> string" where
  "node_text lower n =
     lower (or_empty (role n) @ '' '' @ or_empty (why_warm n) @ '' '' @
            or_empty (relationship_type n))"

definition context_score :: "(string \<Rightarrow> string) \<Rightarrow> user_context option \<Rightarrow> node \<Rightarrow> int" where
  \<comment> \<open>the body of the scoring loop: the value of \<^verbatim>\<open>score\<close> when the node is appended\<close>
  "context_score lower ctx n =
     (let score = warm_score n
      in case ctx of
           None \<Rightarrow> score
         | Some c \<Rightarrow>
             let user_industry = lower (industry c);
                 user_connections = map lower (connections c);
                 text = node_text lower n;
                 score = (if user_industry \<noteq> [] \<and> sublist user_industry text
                          then score + 15 else score)
             in foldl (\<lambda>score conn. if sublist conn text then score + 10 else score)
                  score user_connections)"

definition with_final_score ::
  "(string \<Rightarrow> string) \<Rightarrow> user_context option \<Rightarrow> node \<Rightarrow> scored_node" where
  \<comment> \<open>\<^verbatim>\<open>{**node, "final_score": score}\<close>\<close>
  "with_final_score lower ctx n =
     node.extend n (scored_node.fields (context_score lower ctx n))"

definition sort_nodes :: "scored_node list \<Rightarrow> scored_node list" where
  \<comment> \<open>\<^verbatim>\<open>sort(key=lambda x: (-x["hop_distance"] == 1, -x["final_score"]))\<close>: the unary minus
      binds tighter than \<^verbatim>\<open>==\<close>\<close>
  "sort_nodes xs = sort_key (\<lambda>x. ((- hop_distance x) = 1, - final_score x)) xs"

definition path_entry_of :: "scored_node \<Rightarrow> path_entry" where
  "path_entry_of n =
     \<lparr>p_person_name = person_name n, p_role = role n,
      p_relationship_type = relationship_type n, p_hop = hop_distance n,
      p_warm_score = warm_score n, p_why_warm = why_warm n,
      p_contact_info = contact_info n, p_node_id = id_node n\<rparr>"

definition summary_of :: "scored_node \<Rightarrow> node_summary" where
  "summary_of n =
     \<lparr>s_person_name = person_name n, s_role = role n, s_warm_score = warm_score n,
      s_hop_distance = hop_distance n, s_relationship_type = relationship_type n,
      s_contact_info = contact_info n, s_node_id = id_node n\<rparr>"

definition build_path :: "scored_node list \<Rightarrow> error + path_entry list" where
  \<comment> \<open>the entry node, and after it the first 1-hop node when the entry is not direct\<close>
  "build_path scored_nodes =
     (case scored_nodes of
        [] \<Rightarrow> Inl IndexError
      | entry_node # _ \<Rightarrow>
          Inr ([path_entry_of entry_node] @
               (if hop_distance entry_node > 1
                then (case filter (\<lambda>n. hop_distance n = 1) scored_nodes of
                        [] \<Rightarrow> []
                      | bridge # _ \<Rightarrow> [path_entry_of bridge])
                else [])))"

definition max_hop :: "path_entry list \<Rightarrow> int" where
  \<comment> \<open>\<^verbatim>\<open>max(n["hop"] for n in path)\<close> on a path that has an element\<close>
  "max_hop p = foldl max (p_hop (hd p)) (map p_hop (tl p))"

definition find_best_path ::
  "(string \<Rightarrow> string) \<Rightarrow> node list \<Rightarrow> user_context option \<Rightarrow> error + path_result" where
  "find_best_path lower nodes ctx =
     (if nodes = [] then
        Inr \<lparr>path = [], total_hops = 0, path_score = 0, entry_point = None, all_nodes = None\<rparr>
      else
        let scored_nodes = sort_nodes (map (with_final_score lower ctx) nodes)
        in
        and_then (build_path scored_nodes) (\<lambda>p.
        let hops = max_hop p + 1
        in
        and_then (truediv (sum_list (map p_warm_score p)) (int (length p))) (\<lambda>avg.
        Inr \<lparr>path = p, total_hops = hops, path_score = py_int avg,
             entry_point = Some (hd p),
             all_nodes = Some (map summary_of (take 8 scored_nodes))\<rparr>)))"

subsection \<open>Graph data for the visualisation\<close>

record color =
  background :: string
  border :: string

record font =
  f_size :: int
  f_bold :: bool

record vis_celebrity =
  c_id :: string
  c_label :: string
  c_group :: string
  c_size :: int
  c_color :: color
  c_font :: font

record vis_person =
  v_id :: string
  v_label :: string
  v_title :: string
  v_group :: "string option"
  v_size :: int
  v_color :: color
  v_hop_distance :: int
  v_warm_score :: int
  v_why_warm :: "string option"
  v_contact_info :: "string option"

text \<open>The two shapes of dict in the list \<^verbatim>\<open>vis_nodes\<close>.\<close>

datatype vis_node = Celebrity_Node vis_celebrity | Person_Node vis_person

record vis_edge =
  e_from :: string
  e_to :: string
  e_label :: "string option"
  e_width :: int
  e_dashes :: bool

record graph_data =
  g_nodes :: "vis_node list"
  g_edges :: "vis_edge list"

definition color_map :: "(string \<times> string) list" where
  "color_map =
     [(''manager'', ''#FF6B6B''), (''investor'', ''#4ECDC4''), (''collaborator'', ''#45B7D1''),
      (''media'', ''#96CEB4''), (''colleague'', ''#FFEAA7''), (''partner'', ''#DDA0DD'')]"

definition color_of :: "string option \<Rightarrow> string" where
  \<comment> \<open>\<^verbatim>\<open>color_map.get(node.get("relationship_type", ""), "#A0A0A0")\<close>: \<^verbatim>\<open>None\<close> is no key\<close>
  "color_of t =
     (case t of
        None \<Rightarrow> ''#A0A0A0''
      | Some k \<Rightarrow> (case map_of color_map k of None \<Rightarrow> ''#A0A0A0'' | Some c \<Rightarrow> c))"

fun str_nat :: "nat \<Rightarrow> string" where
  "str_nat n =
     (if n < 10 then [char_of (48 + n)] else str_nat (n div 10) @ [char_of (48 + n mod 10)])"

definition str_int :: "int \<Rightarrow> string" where
  "str_int i = (if i < 0 then ''-'' @ str_nat (nat (- i)) else str_nat (nat i))"

definition str_opt :: "string option \<Rightarrow> string" where
  \<comment> \<open>how an f-string renders a text column\<close>
  "str_opt x = (case x of None \<Rightarrow> ''None'' | Some s \<Rightarrow> s)"

definition celebrity_node :: "string \<Rightarrow> vis_celebrity" where
  "celebrity_node celebrity_name =
     \<lparr>c_id = ''celebrity'', c_label = celebrity_name, c_group = ''celebrity'', c_size = 40,
      c_color = \<lparr>background = ''#FFD700'', border = ''#FFA500''\<rparr>,
      c_font = \<lparr>f_size = 16, f_bold = True\<rparr>\<rparr>"

definition vis_person_of :: "node \<Rightarrow> vis_person" where
  "vis_person_of n =
     (let node_id = id_node n; color = color_of (relationship_type n)
      in \<lparr>v_id = node_id, v_label = person_name n,
          v_title = str_opt (role n) @ [CHR 0x0A] @ ''Warm score: '' @
                    str_int (warm_score n) @ ''/100'',
          v_group = relationship_type n,
          v_size = 20 + warm_score n div 10,
          v_color = \<lparr>background = color, border = color\<rparr>,
          v_hop_distance = hop_distance n, v_warm_score = warm_score n,
          v_why_warm = why_warm n, v_contact_info = contact_info n\<rparr>)"

definition vis_edge_of :: "node \<Rightarrow> vis_edge" where
  "vis_edge_of n =
     \<lparr>e_from = id_node n, e_to = ''celebrity'', e_label = relationship_type n,
      e_width = (if hop_distance n = 1 then 3 else 1),
      e_dashes = (hop_distance n > 1)\<rparr>"

text \<open>
  The loop appends one dict to \<^verbatim>\<open>vis_nodes\<close> and one to \<^verbatim>\<open>vis_edges\<close> per row, in the
  order of the rows; \<open>acc\<close> is the pair of the two lists.
\<close>

fun graph_loop :: "node list \<Rightarrow> vis_node list \<times> vis_edge list \<Rightarrow> vis_node list \<times> vis_edge list" where
  "graph_loop [] acc = acc"
| "graph_loop (n # ns) (vis_nodes, vis_edges) =
     graph_loop ns (vis_nodes @ [Person_Node (vis_person_of n)], vis_edges @ [vis_edge_of n])"

definition get_graph_data :: "node list \<Rightarrow> string \<Rightarrow> graph_data" where
  "get_graph_data nodes_data celebrity_name =
     (let (vis_nodes, vis_edges) =
            graph_loop nodes_data ([Celebrity_Node (celebrity_node celebrity_name)], [])
      in \<lparr>g_nodes = vis_nodes, g_edges = vis_edges\<rparr>)"

fun vis_id :: "vis_node \<Rightarrow> string" where
  "vis_id (Celebrity_Node c) = c_id c"
| "vis_id (Person_Node p) = v_id p"

fun is_celebrity :: "vis_node \<Rightarrow> bool" where
  "is_celebrity (Celebrity_Node c) = True"
| "is_celebrity (Person_Node p) = False"

subsection \<open>The score of a node as the specification words it\<close>

text \<open>
  The specification adds 15 when the industry occurs in the concatenation of the node's
  role, rationale and relationship type, and 10 for each connection that occurs there,
  all compared in the lower case that \<open>lower\<close> gives. \<open>claimed_final_score\<close> follows these
  words, to be compared with \<^const>\<open>context_score\<close>, which follows the code.
\<close>

definition claimed_final_score ::
  "(string \<Rightarrow> string) \<Rightarrow> user_context option \<Rightarrow> node \<Rightarrow> int" where
  "claimed_final_score lower ctx n =
     (let text = lower (or_empty (role n) @ or_empty (why_warm n) @
                        or_empty (relationship_type n))
      in warm_score n +
         (case ctx of
            None \<Rightarrow> 0
          | Some c \<Rightarrow>
              (if sublist (lower (industry c)) text then 15 else 0) +
              10 * int (length (filter (\<lambda>conn. sublist (lower conn) text) (connections c)))))"

subsection \<open>The access score as the specification words it\<close>

text \<open>
  The specification gives the score of a non-empty set as the floor of
  \<open>avg_warm \<times> 0.6 + direct_bonus + variety_bonus\<close>, clamped to the range from 10 to 99,
  where \<open>avg_warm\<close> is the arithmetic mean of the warm scores. \<open>claimed_access_score\<close>
  follows these words, in exact arithmetic, to be compared with
  \<^const>\<open>calculate_access_score\<close>, which follows the code.
\<close>

definition claimed_access_score :: "node list \<Rightarrow> int" where
  "claimed_access_score nodes =
     (if nodes = [] then 30
      else
        let avg_warm = of_int (sum_list (map warm_score nodes)) / of_int (int (length nodes));
            direct_bonus = min (5 * int (length (filter (\<lambda>n. hop_distance n = 1) nodes))) 20;
            variety_bonus = 3 * int (card (set (map relationship_type nodes)));
            raw = \<lfloor>avg_warm * (6 / 10) + of_int direct_bonus + of_int variety_bonus :: rat\<rfloor>
        in min (max raw 10) 99)"

subsection \<open>The arithmetic of the access score\<close>

text \<open>
  The float computation of \<^const>\<open>calculate_access_score\<close> as a function of the four
  integers that it reads off the rows: the sum of the warm scores, the number of rows
  and the two bonuses.
\<close>

definition score_from :: "int \<Rightarrow> int \<Rightarrow> int \<Rightarrow> int \<Rightarrow> error + int" where
  "score_from total_warm n_rows direct_bonus variety_bonus =
     and_then (truediv total_warm n_rows) (\<lambda>avg_warm.
     and_then (fmul avg_warm float_0_6) (\<lambda>base.
     and_then (float_of_int direct_bonus) (\<lambda>direct.
     and_then (fadd base direct) (\<lambda>partial.
     and_then (float_of_int variety_bonus) (\<lambda>variety.
     and_then (fadd partial variety) (\<lambda>total.
     Inr (min (max (py_int total) 10) 99)))))))"

subsection \<open>Example rows\<close>

definition example_row :: "string \<Rightarrow> int \<Rightarrow> node" where
  \<comment> \<open>a row two hops away, of the given identifier and warm score\<close>
  "example_row i w =
     \<lparr>id_node = i, celebrity_id = ''c1'', person_name = ''Di'', role = Some ''Producer'',
      relationship_type = Some ''collaborator'', hop_distance = 2, warm_score = w,
      why_warm = Some ''same studio'', contact_info = None\<rparr>"

definition example_trio :: "node list" where
  "example_trio = [example_row ''n3'' 40, example_row ''n4'' 35, example_row ''n5'' 35]"


definition example_indirect :: node where
  "example_indirect =
     \<lparr>id_node = ''n1'', celebrity_id = ''c1'', person_name = ''Ada'', role = Some ''Agent'',
      relationship_type = Some ''manager'', hop_distance = 2, warm_score = 90,
      why_warm = Some ''worked together'', contact_info = None\<rparr>"

definition example_direct :: node where
  "example_direct =
     \<lparr>id_node = ''n2'', celebrity_id = ''c1'', person_name = ''Bo'', role = Some ''Investor'',
      relationship_type = Some ''investor'', hop_distance = 1, warm_score = 50,
      why_warm = Some ''seed round'', contact_info = Some ''bo@example.org''\<rparr>"

subsection \<open>The path of a ranking\<close>

text \<open>
  The list that \<^const>\<open>build_path\<close> returns on a ranking with an element, with the bridge
  written as the first 1-hop node that \<^const>\<open>find\<close> meets.
\<close>

definition path_of :: "scored_node list \<Rightarrow> path_entry list" where
  "path_of ranked =
     (case ranked of
        [] \<Rightarrow> []
      | entry # rest \<Rightarrow>
          (if 1 < hop_distance entry
           then (case find (\<lambda>n. hop_distance n = 1) ranked of
                   None \<Rightarrow> [path_entry_of entry]
                 | Some bridge \<Rightarrow> [path_entry_of entry, path_entry_of bridge])
           else [path_entry_of entry]))"

subsection \<open>Example contexts\<close>

definition example_context :: user_context where
  "example_context = \<lparr>industry = ''tech'', connections = [''Investor Seed'']\<rparr>"

definition no_industry :: user_context where
  "no_industry = \<lparr>industry = [], connections = []\<rparr>"

text \<open>
  A row whose role starts with a capital letter outside ASCII, \<^verbatim>\<open>E\<close> with an acute accent
  (code 201), and a context whose industry starts with the small letter (code 233).
\<close>

definition example_accented :: node where
  "example_accented =
     \<lparr>id_node = ''n6'', celebrity_id = ''c1'', person_name = ''Eve'',
      role = Some (CHR 0xC9 # ''COLE director''), relationship_type = Some ''colleague'',
      hop_distance = 1, warm_score = 50, why_warm = Some ''alumni board'',
      contact_info = None\<rparr>"

definition accented_context :: user_context where
  "accented_context = \<lparr>industry = CHR 0xE9 # ''cole'', connections = []\<rparr>"

subsection \<open>Runs of the path finder\<close>

text \<open>
  The code ranks the scored nodes with \<^verbatim>\<open>list.sort\<close>. The language does not fix the
  algorithm of the sort; it promises of the list \<open>ys\<close> left by a call on the list \<open>xs\<close>
  that it holds the same elements, in ascending order of the key, and that elements of
  equal key stand in the order they had in \<open>xs\<close>.
\<close>

definition sorts_stably :: "('a \<Rightarrow> 'k::linorder) \<Rightarrow> 'a list \<Rightarrow> 'a list \<Rightarrow> bool" where
  "sorts_stably key xs ys \<longleftrightarrow>
     mset ys = mset xs \<and> sorted (map key ys) \<and>
     list_all (\<lambda>k. filter (\<lambda>x. key k = key x) ys = filter (\<lambda>x. key k = key x) xs) ys"

text \<open>
  \<open>result_of_ranking\<close> is the code after the call of the sort, as a function of the list
  that the call leaves. A run of the path finder on given rows and a given context is
  fixed by that list: \<open>find_best_path_run lower nodes ctx scored_nodes outcome\<close> holds
  when \<open>outcome\<close> is what a run returns or raises in which the sort leaves
  \<open>scored_nodes\<close>. With no rows the code returns before it sorts.
\<close>

definition result_of_ranking :: "scored_node list \<Rightarrow> error + path_result" where
  "result_of_ranking scored_nodes =
     and_then (build_path scored_nodes) (\<lambda>p.
     let hops = max_hop p + 1
     in
     and_then (truediv (sum_list (map p_warm_score p)) (int (length p))) (\<lambda>avg.
     Inr \<lparr>path = p, total_hops = hops, path_score = py_int avg,
          entry_point = Some (hd p),
          all_nodes = Some (map summary_of (take 8 scored_nodes))\<rparr>))"

definition find_best_path_run ::
  "(string \<Rightarrow> string) \<Rightarrow> node list \<Rightarrow> user_context option \<Rightarrow> scored_node list \<Rightarrow>
     error + path_result \<Rightarrow> bool" where
  "find_best_path_run lower nodes ctx scored_nodes outcome \<longleftrightarrow>
     (if nodes = [] then
        outcome =
          Inr \<lparr>path = [], total_hops = 0, path_score = 0, entry_point = None, all_nodes = None\<rparr>
      else
        sorts_stably (\<lambda>x. ((- hop_distance x) = 1, - final_score x))
          (map (with_final_score lower ctx) nodes) scored_nodes
        \<and> outcome = result_of_ranking scored_nodes)"

subsection \<open>Raising one warm score\<close>

definition set_warm_score :: "node list \<Rightarrow> nat \<Rightarrow> int \<Rightarrow> node list" where
  \<comment> \<open>the rows with the warm score of row \<open>i\<close> replaced by \<open>w\<close>, everything else as it was\<close>
  "set_warm_score nodes i w = nodes[i := (nodes ! i)\<lparr>warm_score := w\<rparr>]"

section \<open>Properties\<close>

subsection \<open>Graph data\<close>

lemma graph_loop_eq:
  "graph_loop ns (vs, es) =
     (vs @ map (\<lambda>n. Person_Node (vis_person_of n)) ns, es @ map vis_edge_of ns)"
  by (induction ns arbitrary: vs es) simp_all

lemma get_graph_data_eq:
  "get_graph_data nodes_data celebrity_name =
     \<lparr>g_nodes = Celebrity_Node (celebrity_node celebrity_name) #
                 map (\<lambda>n. Person_Node (vis_person_of n)) nodes_data,
      g_edges = map vis_edge_of nodes_data\<rparr>"
  by (simp add: get_graph_data_def graph_loop_eq)

lemma filter_person:
  "filter is_celebrity (map (\<lambda>n. Person_Node (vis_person_of n)) ns) = []"
  by (induction ns) simp_all

lemma color_of_cases:
  "color_of t =
     (if t = Some ''manager'' then ''#FF6B6B''
      else if t = Some ''investor'' then ''#4ECDC4''
      else if t = Some ''collaborator'' then ''#45B7D1''
      else if t = Some ''media'' then ''#96CEB4''
      else if t = Some ''colleague'' then ''#FFEAA7''
      else if t = Some ''partner'' then ''#DDA0DD''
      else ''#A0A0A0'')"
  by (cases t) (simp_all add: color_of_def color_map_def)

lemma floor_tenth: "\<lfloor>(of_int w :: rat) / 10\<rfloor> = w div 10"
  using floor_divide_of_int_eq [of w 10, where ?'a = rat] by simp

text \<open>
  C5. For a list of \<open>n\<close> rows the graph has \<open>n + 1\<close> visual nodes and \<open>n\<close> edges. The
  only node of the celebrity's shape is the first one, with the reserved identifier
  \<^verbatim>\<open>celebrity\<close>; the visual nodes after it carry the identifiers of the rows, one per row
  and in the order of the rows, and so do the sources of the edges; every edge ends at the
  celebrity.
\<close>

theorem get_graph_data_counts:
  "length (g_nodes (get_graph_data nodes_data celebrity_name)) = length nodes_data + 1
   \<and> length (g_edges (get_graph_data nodes_data celebrity_name)) = length nodes_data
   \<and> filter is_celebrity (g_nodes (get_graph_data nodes_data celebrity_name))
       = [Celebrity_Node (celebrity_node celebrity_name)]
   \<and> vis_id (hd (g_nodes (get_graph_data nodes_data celebrity_name))) = ''celebrity''
   \<and> map vis_id (tl (g_nodes (get_graph_data nodes_data celebrity_name)))
       = map id_node nodes_data
   \<and> map e_from (g_edges (get_graph_data nodes_data celebrity_name)) = map id_node nodes_data
   \<and> map e_to (g_edges (get_graph_data nodes_data celebrity_name))
       = replicate (length nodes_data) ''celebrity''"
  by (simp add: get_graph_data_eq filter_person celebrity_node_def vis_person_of_def
      vis_edge_of_def map_replicate_const comp_def Let_def)

text \<open>
  C8. The visual node of the \<open>i\<close>-th row has size \<open>20 + \<lfloor>warm_score / 10\<rfloor>\<close> and, as
  background and as border, the colour that the table of six relationship types gives,
  or the grey \<^verbatim>\<open>#A0A0A0\<close> for any other type and for a missing one. The edge of the row
  has width 3 when the hop distance is 1 and width 1 otherwise, and is dashed exactly when
  the hop distance is greater than 1.
\<close>

theorem get_graph_data_styling:
  assumes "i < length nodes_data"
  shows "\<exists>p. g_nodes (get_graph_data nodes_data celebrity_name) ! Suc i = Person_Node p
     \<and> v_id p = id_node (nodes_data ! i)
     \<and> v_size p = 20 + \<lfloor>(of_int (warm_score (nodes_data ! i)) :: rat) / 10\<rfloor>
     \<and> v_color p =
         (let t = relationship_type (nodes_data ! i);
              c = (if t = Some ''manager'' then ''#FF6B6B''
                   else if t = Some ''investor'' then ''#4ECDC4''
                   else if t = Some ''collaborator'' then ''#45B7D1''
                   else if t = Some ''media'' then ''#96CEB4''
                   else if t = Some ''colleague'' then ''#FFEAA7''
                   else if t = Some ''partner'' then ''#DDA0DD''
                   else ''#A0A0A0'')
          in \<lparr>background = c, border = c\<rparr>)
     \<and> e_from (g_edges (get_graph_data nodes_data celebrity_name) ! i) = id_node (nodes_data ! i)
     \<and> e_width (g_edges (get_graph_data nodes_data celebrity_name) ! i)
         = (if hop_distance (nodes_data ! i) = 1 then 3 else 1)
     \<and> e_dashes (g_edges (get_graph_data nodes_data celebrity_name) ! i)
         = (hop_distance (nodes_data ! i) > 1)"
  using assms
  by (simp add: get_graph_data_eq vis_person_of_def vis_edge_of_def Let_def floor_tenth
      color_of_cases)

theorem get_graph_data_styling_witness:
  "(0::nat) < length [example_indirect, example_direct]
   \<and> (\<exists>p. g_nodes (get_graph_data [example_indirect, example_direct] ''Cy'') ! Suc 0
            = Person_Node p
        \<and> v_id p = ''n1'' \<and> v_size p = 29
        \<and> v_color p = \<lparr>background = ''#FF6B6B'', border = ''#FF6B6B''\<rparr>
        \<and> e_from (g_edges (get_graph_data [example_indirect, example_direct] ''Cy'') ! 0)
            = ''n1''
        \<and> e_width (g_edges (get_graph_data [example_indirect, example_direct] ''Cy'') ! 0) = 1
        \<and> e_dashes (g_edges (get_graph_data [example_indirect, example_direct] ''Cy'') ! 0))"
proof -
  have len: "(0::nat) < length [example_indirect, example_direct]"
    by simp
  have row: "[example_indirect, example_direct] ! 0 = example_indirect"
    by simp
  have floor_9: "\<lfloor>(90::rat) / 10\<rfloor> = 9"
    by simp
  from get_graph_data_styling [OF len, of "''Cy''"] obtain p where
    "g_nodes (get_graph_data [example_indirect, example_direct] ''Cy'') ! Suc 0 = Person_Node p"
    "v_id p = ''n1''" "v_size p = 29"
    "v_color p = \<lparr>background = ''#FF6B6B'', border = ''#FF6B6B''\<rparr>"
    "e_from (g_edges (get_graph_data [example_indirect, example_direct] ''Cy'') ! 0) = ''n1''"
    "e_width (g_edges (get_graph_data [example_indirect, example_direct] ''Cy'') ! 0) = 1"
    "e_dashes (g_edges (get_graph_data [example_indirect, example_direct] ''Cy'') ! 0)"
    unfolding row Let_def by (auto simp add: example_indirect_def floor_9)
  with len show ?thesis
    by blast
qed

subsection \<open>No rows\<close>

text \<open>
  C6. With no rows, none of the three functions raises: the access score is 30, the best
  path is the dict \<^verbatim>\<open>{"path": [], "total_hops": 0, "path_score": 0}\<close> with no other key, and
  the graph holds the celebrity's node alone and no edge.
\<close>

theorem empty_node_set:
  "calculate_access_score [] = Inr 30
   \<and> find_best_path lower [] ctx =
       Inr \<lparr>path = [], total_hops = 0, path_score = 0, entry_point = None, all_nodes = None\<rparr>
   \<and> get_graph_data [] celebrity_name =
       \<lparr>g_nodes = [Celebrity_Node (celebrity_node celebrity_name)], g_edges = []\<rparr>"
  by (simp add: calculate_access_score_def find_best_path_def get_graph_data_def)

subsection \<open>Rounding to the nearest integer\<close>

lemma round_half_even_bounds:
  "\<lfloor>x\<rfloor> \<le> round_half_even x \<and> round_half_even x \<le> \<lfloor>x\<rfloor> + 1"
  by (simp add: round_half_even_def Let_def)

lemma round_half_even_of_int [simp]: "round_half_even (of_int n) = n"
  by (simp add: round_half_even_def)

lemma round_half_even_mono:
  assumes "x \<le> y"
  shows "round_half_even x \<le> round_half_even y"
proof (cases "\<lfloor>x\<rfloor> = \<lfloor>y\<rfloor>")
  case True
  with assms show ?thesis
    by (auto simp add: round_half_even_def Let_def)
next
  case False
  with assms have "\<lfloor>x\<rfloor> + 1 \<le> \<lfloor>y\<rfloor>"
    using floor_mono [of x y] by linarith
  with round_half_even_bounds [of x] round_half_even_bounds [of y] show ?thesis
    by linarith
qed

lemma round_half_even_ge: "of_int n \<le> x \<Longrightarrow> n \<le> round_half_even x"
  using round_half_even_mono [of "of_int n" x] by simp

lemma round_half_even_le: "x \<le> of_int n \<Longrightarrow> round_half_even x \<le> n"
  using round_half_even_mono [of x "of_int n"] by simp

subsection \<open>The binary exponent\<close>

lemma int_pow2_bounds:
  assumes "0 < (p::int)"
  shows "(2::rat) powi (bitlen p - 1) \<le> of_int p" and "of_int p < (2::rat) powi (bitlen p)"
proof -
  have b: "1 \<le> bitlen p"
    using assms by (simp add: bitlen_alt_def)
  from bitlen_bounds [OF assms]
  have "(of_int (2 ^ nat (bitlen p - 1)) :: rat) \<le> of_int p"
    and "(of_int p :: rat) < of_int (2 ^ nat (bitlen p))"
    by (simp_all only: of_int_le_iff of_int_less_iff)
  with b show "(2::rat) powi (bitlen p - 1) \<le> of_int p" and "of_int p < (2::rat) powi (bitlen p)"
    by (simp_all add: power_int_nonneg_exp)
qed

lemma ilog2_bounds:
  assumes "0 < x"
  shows "2 powi ilog2 x \<le> x \<and> x < 2 powi (ilog2 x + 1)"
proof -
  obtain p q where pq: "quotient_of x = (p, q)"
    by (cases "quotient_of x")
  then have q: "0 < q" and x: "x = of_int p / of_int q"
    by (auto dest: quotient_of_denom_pos quotient_of_div)
  with assms have p: "0 < p"
    by (simp add: zero_less_divide_iff)
  define d where "d = bitlen p - bitlen q"
  have P: "(2::rat) powi (bitlen p - 1) \<le> of_int p" "of_int p < (2::rat) powi (bitlen p)"
    using int_pow2_bounds [OF p] .
  have Q: "(2::rat) powi (bitlen q - 1) \<le> of_int q" "of_int q < (2::rat) powi (bitlen q)"
    using int_pow2_bounds [OF q] .
  have lo: "(2::rat) powi (d - 1) < x"
  proof -
    have "(2::rat) powi (d - 1) * of_int q < 2 powi (d - 1) * 2 powi (bitlen q)"
      using Q(2) by (intro mult_strict_left_mono) simp_all
    also have "\<dots> = 2 powi (bitlen p - 1)"
      by (simp add: d_def flip: power_int_add)
    also have "\<dots> \<le> of_int p"
      by (rule P(1))
    finally show ?thesis
      using q by (simp add: x pos_less_divide_eq)
  qed
  have hi: "x < (2::rat) powi (d + 1)"
  proof -
    have "of_int p < (2::rat) powi (bitlen p)"
      by (rule P(2))
    also have "\<dots> = 2 powi (d + 1) * 2 powi (bitlen q - 1)"
      by (simp add: d_def flip: power_int_add)
    also have "\<dots> \<le> 2 powi (d + 1) * of_int q"
      using Q(1) by (intro mult_left_mono) simp_all
    finally show ?thesis
      using q by (simp add: x pos_divide_less_eq)
  qed
  have il: "ilog2 x = (if 2 powi d \<le> x then d else d - 1)"
    by (simp add: ilog2_def pq d_def Let_def)
  show ?thesis
  proof (cases "2 powi d \<le> x")
    case True
    with hi il show ?thesis by simp
  next
    case False
    with lo il show ?thesis by simp
  qed
qed

lemma ilog2_unique:
  assumes "2 powi k \<le> x" and "x < 2 powi (k + 1)"
  shows "ilog2 x = k"
proof -
  have pos: "0 < x"
    using assms(1) by (rule less_le_trans [rotated]) simp
  from ilog2_bounds [OF pos] assms
  have "(2::rat) powi ilog2 x < 2 powi (k + 1)" "(2::rat) powi k < 2 powi (ilog2 x + 1)"
    by linarith+
  then have "ilog2 x < k + 1" "k < ilog2 x + 1"
    by (metis not_le power_int_increasing one_le_numeral)+
  then show ?thesis by linarith
qed

lemma ilog2_mono:
  assumes "0 < x" and "x \<le> y"
  shows "ilog2 x \<le> ilog2 y"
proof -
  have "(2::rat) powi ilog2 x < 2 powi (ilog2 y + 1)"
    using ilog2_bounds [of x] ilog2_bounds [of y] assms by linarith
  then have "ilog2 x < ilog2 y + 1"
    by (metis not_le power_int_increasing one_le_numeral)
  then show ?thesis by simp
qed

subsection \<open>Rounding to binary64\<close>

lemma round_half_even_0 [simp]: "round_half_even 0 = 0"
  using round_half_even_of_int [of 0] by simp

lemma pow2_add: "(2::rat) powi a * 2 powi b = 2 powi (a + b)"
  by (simp add: power_int_add)

lemma b64_round_eq:
  "b64_round x = of_int (round_half_even (x / 2 powi (b64_exponent x - 52))) * 2 powi (b64_exponent x - 52)"
  by (simp add: b64_round_def Let_def)

lemma b64_exponent_pos_bounds:
  assumes "0 < x"
  shows "x < 2 powi (b64_exponent x + 1)"
    and "- 1022 < b64_exponent x \<Longrightarrow> 2 powi b64_exponent x \<le> x"
proof -
  have "x < 2 powi (ilog2 x + 1)"
    using ilog2_bounds [OF assms] by simp
  also have "\<dots> \<le> 2 powi (b64_exponent x + 1)"
    using assms by (intro power_int_increasing) (simp_all add: b64_exponent_def)
  finally show "x < 2 powi (b64_exponent x + 1)" .
  assume "- 1022 < b64_exponent x"
  with assms have "b64_exponent x = ilog2 x"
    by (simp add: b64_exponent_def max_def split: if_splits)
  with ilog2_bounds [OF assms] show "2 powi b64_exponent x \<le> x"
    by simp
qed

lemma b64_exponent_mono:
  assumes "0 < x" and "x \<le> y"
  shows "b64_exponent x \<le> b64_exponent y"
  using ilog2_mono [OF assms] assms by (simp add: b64_exponent_def max_def)

lemma b64_exponent_uminus [simp]: "b64_exponent (- x) = b64_exponent x"
  by (simp add: b64_exponent_def)

text \<open>A positive number rounds into the closed binade of its exponent.\<close>

lemma binade_top: "of_int (2 ^ 53) * (2::rat) powi (e - 52) = 2 powi (e + 1)"
proof -
  have "(2::rat) powi (e + 1) = 2 powi (53 + (e - 52))"
    by (rule arg_cong [where f = "\<lambda>k. 2 powi k"]) simp
  also have "\<dots> = 2 powi 53 * 2 powi (e - 52)"
    by (rule pow2_add [symmetric])
  also have "(2::rat) powi 53 = of_int (2 ^ 53)"
    by simp
  finally show ?thesis
    by (rule sym)
qed

lemma binade_bottom: "of_int (2 ^ 52) * (2::rat) powi (e - 52) = 2 powi e"
proof -
  have "(2::rat) powi e = 2 powi (52 + (e - 52))"
    by (rule arg_cong [where f = "\<lambda>k. 2 powi k"]) simp
  also have "\<dots> = 2 powi 52 * 2 powi (e - 52)"
    by (rule pow2_add [symmetric])
  also have "(2::rat) powi 52 = of_int (2 ^ 52)"
    by simp
  finally show ?thesis
    by (rule sym)
qed

lemma scaled_round_le:
  assumes "0 < q" and "x \<le> of_int n * q"
  shows "of_int (round_half_even (x / q)) * q \<le> of_int n * q"
proof -
  from assms have "x / q \<le> of_int n"
    by (simp add: pos_divide_le_eq)
  then have "round_half_even (x / q) \<le> n"
    by (rule round_half_even_le)
  then have "(of_int (round_half_even (x / q)) :: rat) \<le> of_int n"
    by (simp only: of_int_le_iff)
  with assms(1) show ?thesis
    by (simp add: mult_right_mono)
qed

lemma scaled_round_ge:
  assumes "0 < q" and "of_int n * q \<le> x"
  shows "of_int n * q \<le> of_int (round_half_even (x / q)) * q"
proof -
  from assms have "of_int n \<le> x / q"
    by (simp add: pos_le_divide_eq)
  then have "n \<le> round_half_even (x / q)"
    by (rule round_half_even_ge)
  then have "(of_int n :: rat) \<le> of_int (round_half_even (x / q))"
    by (simp only: of_int_le_iff)
  with assms(1) show ?thesis
    by (simp add: mult_right_mono)
qed

lemma b64_round_pos_upper:
  assumes "0 < x"
  shows "b64_round x \<le> 2 powi (b64_exponent x + 1)"
proof -
  let ?q = "(2::rat) powi (b64_exponent x - 52)"
  have "x \<le> of_int (2 ^ 53) * ?q"
    using b64_exponent_pos_bounds(1) [OF assms] by (simp only: binade_top)
  then have "of_int (round_half_even (x / ?q)) * ?q \<le> of_int (2 ^ 53) * ?q"
    by (intro scaled_round_le) simp_all
  then show ?thesis
    by (simp only: b64_round_eq binade_top)
qed

lemma b64_round_pos_lower:
  assumes "0 < x" and "- 1022 < b64_exponent x"
  shows "2 powi b64_exponent x \<le> b64_round x"
proof -
  let ?q = "(2::rat) powi (b64_exponent x - 52)"
  have "of_int (2 ^ 52) * ?q \<le> x"
    using b64_exponent_pos_bounds(2) [OF assms] by (simp only: binade_bottom)
  then have "of_int (2 ^ 52) * ?q \<le> of_int (round_half_even (x / ?q)) * ?q"
    by (intro scaled_round_ge) simp_all
  then show ?thesis
    by (simp only: b64_round_eq binade_bottom)
qed

lemma b64_round_nonneg: "0 \<le> x \<Longrightarrow> 0 \<le> b64_round x"
  using round_half_even_ge [of 0 "x / 2 powi (b64_exponent x - 52)"]
  by (simp add: b64_round_eq)

lemma b64_round_nonpos: "x \<le> 0 \<Longrightarrow> b64_round x \<le> 0"
  using round_half_even_le [of "x / 2 powi (b64_exponent x - 52)" 0]
  by (simp add: b64_round_eq divide_nonpos_pos mult_nonpos_nonneg)

lemma b64_round_mono_pos:
  assumes "0 < x" and "x \<le> y"
  shows "b64_round x \<le> b64_round y"
proof (cases "b64_exponent x = b64_exponent y")
  case True
  let ?q = "(2::rat) powi (b64_exponent y - 52)"
  have "x / ?q \<le> y / ?q"
    using assms by (simp add: divide_right_mono)
  then have "round_half_even (x / ?q) \<le> round_half_even (y / ?q)"
    by (rule round_half_even_mono)
  then have "of_int (round_half_even (x / ?q)) * ?q \<le> of_int (round_half_even (y / ?q)) * ?q"
    by (intro mult_right_mono) simp_all
  with True show ?thesis
    by (simp add: b64_round_eq)
next
  case False
  with b64_exponent_mono [OF assms] have lt: "b64_exponent x + 1 \<le> b64_exponent y"
    by simp
  have "- 1022 \<le> b64_exponent x"
    by (simp add: b64_exponent_def)
  with lt have big: "- 1022 < b64_exponent y"
    by simp
  have "b64_round x \<le> 2 powi (b64_exponent x + 1)"
    using assms by (intro b64_round_pos_upper)
  also have "\<dots> \<le> 2 powi b64_exponent y"
    using lt by (intro power_int_increasing) simp_all
  also have "\<dots> \<le> b64_round y"
    using assms big by (intro b64_round_pos_lower) simp_all
  finally show ?thesis .
qed

lemma b64_round_neg_lower:
  assumes "x < 0"
  shows "- (2 powi (b64_exponent x + 1)) \<le> b64_round x"
proof -
  let ?q = "(2::rat) powi (b64_exponent x - 52)"
  have "- x < 2 powi (b64_exponent x + 1)"
    using b64_exponent_pos_bounds(1) [of "- x"] assms by simp
  then have "of_int (- (2 ^ 53)) * ?q \<le> x"
    using binade_top [of "b64_exponent x"] by simp
  then have "of_int (- (2 ^ 53)) * ?q \<le> of_int (round_half_even (x / ?q)) * ?q"
    by (intro scaled_round_ge) simp_all
  moreover have "of_int (- (2 ^ 53)) * ?q = - (2 powi (b64_exponent x + 1))"
    using binade_top [of "b64_exponent x"] by simp
  ultimately show ?thesis
    by (simp only: b64_round_eq)
qed

lemma b64_round_neg_upper:
  assumes "x < 0" and "- 1022 < b64_exponent x"
  shows "b64_round x \<le> - (2 powi b64_exponent x)"
proof -
  let ?q = "(2::rat) powi (b64_exponent x - 52)"
  have "2 powi b64_exponent x \<le> - x"
    using b64_exponent_pos_bounds(2) [of "- x"] assms by simp
  then have "x \<le> of_int (- (2 ^ 52)) * ?q"
    using binade_bottom [of "b64_exponent x"] by simp
  then have "of_int (round_half_even (x / ?q)) * ?q \<le> of_int (- (2 ^ 52)) * ?q"
    by (intro scaled_round_le) simp_all
  moreover have "of_int (- (2 ^ 52)) * ?q = - (2 powi b64_exponent x)"
    using binade_bottom [of "b64_exponent x"] by simp
  ultimately show ?thesis
    by (simp only: b64_round_eq)
qed

lemma b64_round_mono_same:
  assumes "x \<le> y" and "b64_exponent x = b64_exponent y"
  shows "b64_round x \<le> b64_round y"
proof -
  let ?q = "(2::rat) powi (b64_exponent y - 52)"
  have "x / ?q \<le> y / ?q"
    using assms(1) by (simp add: divide_right_mono)
  then have "round_half_even (x / ?q) \<le> round_half_even (y / ?q)"
    by (rule round_half_even_mono)
  then have "of_int (round_half_even (x / ?q)) * ?q \<le> of_int (round_half_even (y / ?q)) * ?q"
    by (intro mult_right_mono) simp_all
  with assms(2) show ?thesis
    by (simp add: b64_round_eq)
qed

lemma b64_round_mono_neg:
  assumes "x \<le> y" and "y < 0"
  shows "b64_round x \<le> b64_round y"
proof (cases "b64_exponent x = b64_exponent y")
  case True
  with assms(1) show ?thesis
    by (rule b64_round_mono_same)
next
  case False
  have "b64_exponent (- y) \<le> b64_exponent (- x)"
    using assms by (intro b64_exponent_mono) simp_all
  with False have lt: "b64_exponent y + 1 \<le> b64_exponent x"
    by simp
  have "- 1022 \<le> b64_exponent y"
    by (simp add: b64_exponent_def)
  with lt have big: "- 1022 < b64_exponent x"
    by simp
  have "(2::rat) powi (b64_exponent y + 1) \<le> 2 powi b64_exponent x"
    using lt by (intro power_int_increasing) simp_all
  moreover have "b64_round x \<le> - (2 powi b64_exponent x)"
    using assms big by (intro b64_round_neg_upper) simp_all
  moreover have "- (2 powi (b64_exponent y + 1)) \<le> b64_round y"
    using assms by (intro b64_round_neg_lower) simp_all
  ultimately show ?thesis
    by linarith
qed

lemma b64_round_mono:
  assumes "x \<le> y"
  shows "b64_round x \<le> b64_round y"
proof -
  consider "0 < x" | "y < 0" | "x \<le> 0" "0 \<le> y"
    by linarith
  then show ?thesis
  proof cases
    case 1
    with assms show ?thesis by (intro b64_round_mono_pos)
  next
    case 2
    with assms show ?thesis by (intro b64_round_mono_neg)
  next
    case 3
    then show ?thesis
      using b64_round_nonpos [of x] b64_round_nonneg [of y] by linarith
  qed
qed

text \<open>Below \<open>2 powi k\<close> in magnitude, the rounded number is at most \<open>2 powi k\<close> in magnitude.\<close>

lemma b64_exponent_less:
  assumes "0 < x" and "x < 2 powi k" and "- 1022 < k"
  shows "b64_exponent x + 1 \<le> k"
proof -
  have "(2::rat) powi ilog2 x < 2 powi k"
    using ilog2_bounds [OF assms(1)] assms(2) by linarith
  then have "ilog2 x < k"
    by (metis not_le power_int_increasing one_le_numeral)
  with assms(1,3) show ?thesis
    by (simp add: b64_exponent_def)
qed

lemma b64_round_abs_le:
  assumes "\<bar>x\<bar> < 2 powi k" and "- 1022 < k"
  shows "\<bar>b64_round x\<bar> \<le> 2 powi k"
proof -
  consider "0 < x" | "x < 0" | "x = 0"
    by linarith
  then show ?thesis
  proof cases
    case 1
    with assms have "b64_exponent x + 1 \<le> k"
      by (intro b64_exponent_less) simp_all
    then have "(2::rat) powi (b64_exponent x + 1) \<le> 2 powi k"
      by (intro power_int_increasing) simp_all
    with b64_round_pos_upper [OF 1] b64_round_nonneg [of x] 1 show ?thesis
      by simp
  next
    case 2
    with assms have "b64_exponent (- x) + 1 \<le> k"
      by (intro b64_exponent_less) simp_all
    then have "(2::rat) powi (b64_exponent x + 1) \<le> 2 powi k"
      by (intro power_int_increasing) simp_all
    with b64_round_neg_lower [OF 2] b64_round_nonpos [of x] 2 show ?thesis
      by simp
  next
    case 3
    then show ?thesis
      by (simp add: b64_round_def)
  qed
qed

lemma binary64_returns:
  assumes "\<bar>x\<bar> < 2 powi k" and "- 1022 < k" and "k < 1024"
  shows "binary64 x = Inr (b64_round x)"
proof -
  have "\<bar>b64_round x\<bar> \<le> 2 powi k"
    using assms(1,2) by (rule b64_round_abs_le)
  also have "(2::rat) powi k < 2 powi 1024"
    using assms(3) by (intro power_int_strict_increasing) simp_all
  finally have "\<bar>b64_round x\<bar> < 2 ^ 1024"
    by simp
  then show ?thesis
    by (simp add: binary64_def Let_def)
qed

lemma binary64_mono:
  assumes "x \<le> y" and "binary64 x = Inr a" and "binary64 y = Inr b"
  shows "a \<le> b"
  using assms b64_round_mono [of x y]
  by (simp add: binary64_def Let_def split: if_splits)

lemma py_int_mono:
  assumes "x \<le> y"
  shows "py_int x \<le> py_int y"
proof -
  consider "0 \<le> x" | "y < 0" | "x < 0" "0 \<le> y"
    by linarith
  then show ?thesis
  proof cases
    case 1
    with assms show ?thesis
      by (simp add: py_int_def floor_mono)
  next
    case 2
    with assms show ?thesis
      by (simp add: py_int_def ceiling_mono)
  next
    case 3
    then have "\<lceil>x\<rceil> \<le> 0" and "0 \<le> \<lfloor>y\<rfloor>"
      by (simp_all add: ceiling_le_iff)
    then have "\<lceil>x\<rceil> \<le> \<lfloor>y\<rfloor>"
      by linarith
    with 3 show ?thesis
      by (simp add: py_int_def)
  qed
qed

lemma b64_round_exact:
  assumes "x / 2 powi (b64_exponent x - 52) = of_int m"
  shows "b64_round x = x"
proof -
  have "b64_round x = x / 2 powi (b64_exponent x - 52) * 2 powi (b64_exponent x - 52)"
    unfolding b64_round_eq assms by simp
  then show ?thesis
    by simp
qed

lemma b64_round_of_int:
  assumes "\<bar>n\<bar> < 2 ^ 53"
  shows "b64_round (of_int n) = of_int n"
proof (cases "n = 0")
  case True
  then show ?thesis
    by (simp add: b64_round_def)
next
  case False
  let ?x = "of_int n :: rat"
  let ?e = "b64_exponent ?x"
  have "\<bar>?x\<bar> < of_int (2 ^ 53)"
    using assms by (simp only: of_int_abs [symmetric] of_int_less_iff)
  then have "\<bar>?x\<bar> < 2 powi 53"
    by simp
  moreover have "0 < \<bar>?x\<bar>"
    using False by simp
  ultimately have "b64_exponent \<bar>?x\<bar> + 1 \<le> 53"
    by (intro b64_exponent_less) simp_all
  then have e: "?e \<le> 52"
    by (simp add: b64_exponent_def)
  have "?x / 2 powi (?e - 52) = ?x * 2 powi (52 - ?e)"
    using power_int_minus [of "2::rat" "?e - 52"] by (simp add: field_simps)
  also have "\<dots> = ?x * 2 ^ nat (52 - ?e)"
    using e by (simp add: power_int_nonneg_exp)
  also have "\<dots> = of_int (n * 2 ^ nat (52 - ?e))"
    by simp
  finally show ?thesis
    by (rule b64_round_exact)
qed

lemma float_of_int_exact:
  assumes "\<bar>n\<bar> < 2 ^ 53"
  shows "binary64 (of_int n) = Inr (of_int n)"
proof -
  have "\<bar>of_int n :: rat\<bar> < of_int (2 ^ 53)"
    using assms by (simp only: of_int_abs [symmetric] of_int_less_iff)
  then have "\<bar>of_int n :: rat\<bar> < 2 powi 53"
    by simp
  then have "binary64 (of_int n) = Inr (b64_round (of_int n))"
    by (rule binary64_returns) simp_all
  with assms show ?thesis
    by (simp add: b64_round_of_int)
qed

lemma float_0_6_eq: "b64_round (6 / 10) = float_0_6"
  by code_simp

lemma float_0_6_less_1: "float_0_6 < 1"
  by (simp add: float_0_6_def)

lemma binary64_bounded:
  assumes "0 \<le> x" and "x < 2 ^ k" and "k < 1024"
  shows "binary64 x = Inr (b64_round x) \<and> 0 \<le> b64_round x \<and> b64_round x \<le> 2 ^ k"
proof -
  have less: "\<bar>x\<bar> < 2 powi int k"
    using assms(1,2) by simp
  have "binary64 x = Inr (b64_round x)"
    using less by (rule binary64_returns) (use assms(3) in simp_all)
  moreover have "\<bar>b64_round x\<bar> \<le> 2 powi int k"
    using less by (rule b64_round_abs_le) simp
  ultimately show ?thesis
    using b64_round_nonneg [OF assms(1)] by simp
qed

subsection \<open>The access score is monotone and bounded\<close>

lemma and_then_Inr_iff: "and_then m f = Inr y \<longleftrightarrow> (\<exists>x. m = Inr x \<and> f x = Inr y)"
  by (cases m) (simp_all add: and_then_def)

lemma and_then_Inr [simp]: "and_then (Inr x) f = f x"
  by (simp add: and_then_def)

lemma calculate_access_score_eq:
  "calculate_access_score nodes =
     (if nodes = [] then Inr 30
      else score_from (sum_list (map warm_score nodes)) (int (length nodes))
             (min (5 * int (length (filter (\<lambda>n. hop_distance n = 1) nodes))) 20)
             (3 * int (card (set (map relationship_type nodes)))))"
  by (simp add: calculate_access_score_def score_from_def Let_def mult.commute)

lemma score_from_Inr_iff:
  "score_from S n d v = Inr s \<longleftrightarrow>
     (\<exists>avg_warm base direct partial variety total.
        truediv S n = Inr avg_warm \<and> binary64 (avg_warm * float_0_6) = Inr base \<and>
        binary64 (of_int d) = Inr direct \<and> binary64 (base + direct) = Inr partial \<and>
        binary64 (of_int v) = Inr variety \<and> binary64 (partial + variety) = Inr total \<and>
        s = min (max (py_int total) 10) 99)"
  by (auto simp add: score_from_def and_then_Inr_iff fmul_def fadd_def float_of_int_def)

lemma score_from_range:
  assumes "score_from S n d v = Inr s"
  shows "10 \<le> s \<and> s \<le> 99"
  using assms by (auto simp add: score_from_Inr_iff)

lemma float_0_6_pos: "0 < float_0_6"
  by (simp add: float_0_6_def)

lemma score_from_mono:
  assumes "S \<le> S'" and "0 < n"
    and "score_from S n d v = Inr s" and "score_from S' n d v = Inr s'"
  shows "s \<le> s'"
proof -
  from assms(3) obtain a b dd p vv t where
    a: "truediv S n = Inr a" and b: "binary64 (a * float_0_6) = Inr b"
    and dd: "binary64 (of_int d) = Inr dd" and p: "binary64 (b + dd) = Inr p"
    and vv: "binary64 (of_int v) = Inr vv" and t: "binary64 (p + vv) = Inr t"
    and s: "s = min (max (py_int t) 10) 99"
    unfolding score_from_Inr_iff by blast
  from assms(4) obtain a' b' dd' p' vv' t' where
    a': "truediv S' n = Inr a'" and b': "binary64 (a' * float_0_6) = Inr b'"
    and dd': "binary64 (of_int d) = Inr dd'" and p': "binary64 (b' + dd') = Inr p'"
    and vv': "binary64 (of_int v) = Inr vv'" and t': "binary64 (p' + vv') = Inr t'"
    and s': "s' = min (max (py_int t') 10) 99"
    unfolding score_from_Inr_iff by blast
  from dd dd' vv vv' have same: "dd' = dd" "vv' = vv"
    by simp_all
  have "(of_int S :: rat) / of_int n \<le> of_int S' / of_int n"
    using assms(1,2) by (simp add: divide_right_mono)
  with a a' assms(2) have "a \<le> a'"
    by (auto simp add: truediv_def intro: binary64_mono)
  then have "a * float_0_6 \<le> a' * float_0_6"
    using float_0_6_pos by (simp add: mult_right_mono)
  then have "b \<le> b'"
    by (rule binary64_mono [OF _ b b'])
  then have "b + dd \<le> b' + dd'"
    by (simp add: same)
  then have "p \<le> p'"
    by (rule binary64_mono [OF _ p p'])
  then have "p + vv \<le> p' + vv'"
    by (simp add: same)
  then have "t \<le> t'"
    by (rule binary64_mono [OF _ t t'])
  then have "py_int t \<le> py_int t'"
    by (rule py_int_mono)
  then show ?thesis
    by (simp add: s s')
qed

lemma sum_list_update_int:
  fixes xs :: "int list"
  assumes "i < length xs"
  shows "sum_list (xs[i := y]) = sum_list xs - xs ! i + y"
  using assms
proof (induction xs arbitrary: i)
  case Nil
  then show ?case by simp
next
  case (Cons x xs)
  then show ?case by (cases i) simp_all
qed

lemma score_from_wf:
  assumes "0 \<le> S" and "S \<le> 100 * n" and "0 < n"
    and "0 \<le> d" and "d \<le> 20" and "0 \<le> v" and "v < 2 ^ 53"
  shows "score_from S n d v =
     Inr (min (max \<lfloor>b64_round (b64_round (b64_round (b64_round (of_int S / of_int n)
                        * b64_round (6 / 10)) + of_int d) + of_int v)\<rfloor> 10) 99)"
proof -
  let ?a = "b64_round (of_int S / of_int n)"
  let ?b = "b64_round (?a * float_0_6)"
  let ?p = "b64_round (?b + of_int d)"
  let ?t = "b64_round (?p + of_int v)"
  have "(of_int S :: rat) \<le> of_int (100 * n)"
    using assms(2) by (simp only: of_int_le_iff)
  then have "(of_int S :: rat) / of_int n \<le> 100"
    using assms(3) by (simp add: pos_divide_le_eq)
  moreover have "0 \<le> (of_int S :: rat) / of_int n"
    using assms(1,3) by simp
  ultimately have a: "binary64 (of_int S / of_int n) = Inr ?a \<and> 0 \<le> ?a \<and> ?a \<le> 2 ^ 7"
    by (intro binary64_bounded) simp_all
  have "?a * float_0_6 \<le> 2 ^ 7 * 1"
    using a float_0_6_less_1 float_0_6_pos by (intro mult_mono) simp_all
  moreover have "0 \<le> ?a * float_0_6"
    using a float_0_6_pos by simp
  ultimately have b: "binary64 (?a * float_0_6) = Inr ?b \<and> 0 \<le> ?b \<and> ?b \<le> 2 ^ 8"
    by (intro binary64_bounded) simp_all
  have d: "binary64 (of_int d) = Inr (of_int d)"
    using assms(4,5) by (intro float_of_int_exact) simp
  have "(of_int d :: rat) \<le> 20" "0 \<le> (of_int d :: rat)"
    using assms(4,5) by simp_all
  with b have "?b + of_int d < 2 ^ 9" "0 \<le> ?b + of_int d"
    by simp_all
  then have p: "binary64 (?b + of_int d) = Inr ?p \<and> 0 \<le> ?p \<and> ?p \<le> 2 ^ 9"
    by (intro binary64_bounded) simp_all
  have v: "binary64 (of_int v) = Inr (of_int v)"
    using assms(6,7) by (intro float_of_int_exact) simp
  have "(of_int v :: rat) < of_int (2 ^ 53)"
    using assms(7) by (simp only: of_int_less_iff)
  moreover have "0 \<le> (of_int v :: rat)"
    using assms(6) by simp
  ultimately have "?p + of_int v < 2 ^ 54" "0 \<le> ?p + of_int v"
    using p by simp_all
  then have t: "binary64 (?p + of_int v) = Inr ?t \<and> 0 \<le> ?t \<and> ?t \<le> 2 ^ 54"
    by (intro binary64_bounded) simp_all
  have "score_from S n d v = Inr (min (max (py_int ?t) 10) 99)"
    using a b d p v t assms(3)
    by (simp add: score_from_def truediv_def fmul_def fadd_def float_of_int_def)
  moreover have "py_int ?t = \<lfloor>?t\<rfloor>"
    using t by (simp add: py_int_def)
  ultimately have "score_from S n d v = Inr (min (max \<lfloor>?t\<rfloor> 10) 99)"
    by simp
  then show ?thesis
    by (simp only: float_0_6_eq)
qed

lemma sum_list_bounds:
  fixes xs :: "int list"
  assumes "\<forall>x\<in>set xs. 0 \<le> x \<and> x \<le> c"
  shows "0 \<le> sum_list xs \<and> sum_list xs \<le> c * int (length xs)"
  using assms by (induction xs) (auto simp add: algebra_simps)

lemma calculate_access_score_wf:
  assumes "nodes \<noteq> []" and "\<forall>n\<in>set nodes. 0 \<le> warm_score n \<and> warm_score n \<le> 100"
    and "length nodes < 2 ^ 51"
  shows "calculate_access_score nodes =
     Inr (min (max \<lfloor>b64_round (b64_round (b64_round
            (b64_round (of_int (sum_list (map warm_score nodes)) / of_int (int (length nodes)))
               * b64_round (6 / 10))
             + of_int (min (5 * int (length (filter (\<lambda>n. hop_distance n = 1) nodes))) 20))
             + of_int (3 * int (card (set (map relationship_type nodes)))))\<rfloor> 10) 99)"
proof -
  have S: "0 \<le> sum_list (map warm_score nodes)
        \<and> sum_list (map warm_score nodes) \<le> 100 * int (length nodes)"
    using sum_list_bounds [of "map warm_score nodes" 100] assms(2) by simp
  have "card (set (map relationship_type nodes)) \<le> length nodes"
    using card_length [of "map relationship_type nodes"] by simp
  with assms(3) have "3 * int (card (set (map relationship_type nodes))) < 3 * 2 ^ 51"
    by simp
  then have v: "3 * int (card (set (map relationship_type nodes))) < 2 ^ 53"
    by simp
  have n: "0 < int (length nodes)"
    using assms(1) by simp
  show ?thesis
    unfolding calculate_access_score_eq using assms(1)
    by (simp only: if_False) (rule score_from_wf, use S n v in simp_all)
qed

text \<open>
  The error of one rounding is at most half a unit in the last place. Over the four
  roundings of the access score it stays below \<open>1 / 2 ^ 43\<close>, which is less than the
  distance \<open>1 / (5 * n)\<close> between an exact sum that is no integer and the next integer.
\<close>

lemma round_half_even_error: "\<bar>of_int (round_half_even x) - x\<bar> \<le> 1 / 2"
proof -
  define r where "r = x - of_int \<lfloor>x\<rfloor>"
  have r: "0 \<le> r" "r < 1"
    unfolding r_def by linarith+
  have x: "x = of_int \<lfloor>x\<rfloor> + r"
    by (simp add: r_def)
  consider "r < 1 / 2" | "1 / 2 < r" | "r = 1 / 2"
    by linarith
  then show ?thesis
  proof cases
    case 1
    then have "round_half_even x = \<lfloor>x\<rfloor>"
      by (simp add: round_half_even_def Let_def r_def)
    then have "of_int (round_half_even x) - x = - r"
      by (simp add: r_def)
    with r 1 show ?thesis
      by (simp add: abs_if)
  next
    case 2
    then have "round_half_even x = \<lfloor>x\<rfloor> + 1"
      by (simp add: round_half_even_def Let_def r_def)
    then have "of_int (round_half_even x) - x = 1 - r"
      by (simp add: r_def)
    with r 2 show ?thesis
      by (simp add: abs_if)
  next
    case 3
    then have "round_half_even x = \<lfloor>x\<rfloor> \<or> round_half_even x = \<lfloor>x\<rfloor> + 1"
      by (simp add: round_half_even_def Let_def r_def)
    then have "of_int (round_half_even x) - x = - r \<or> of_int (round_half_even x) - x = 1 - r"
      by (auto simp add: r_def)
    with 3 show ?thesis
      by (auto simp add: abs_if)
  qed
qed

lemma pow2_half: "(2::rat) powi (e - 52) / 2 = 2 powi (e - 53)"
proof -
  have "(2::rat) powi (e - 52) = 2 powi (e - 53) * 2 powi 1"
    unfolding pow2_add by simp
  then show ?thesis
    by simp
qed

lemma b64_round_error: "\<bar>b64_round x - x\<bar> \<le> 2 powi (b64_exponent x - 53)"
proof -
  let ?q = "(2::rat) powi (b64_exponent x - 52)"
  have q: "0 < ?q"
    by simp
  have "b64_round x - x = (of_int (round_half_even (x / ?q)) - x / ?q) * ?q"
    using q by (simp add: b64_round_eq algebra_simps)
  then have "\<bar>b64_round x - x\<bar> = \<bar>of_int (round_half_even (x / ?q)) - x / ?q\<bar> * ?q"
    using q by (simp add: abs_mult)
  also have "\<dots> \<le> 1 / 2 * ?q"
    using round_half_even_error [of "x / ?q"] q by (intro mult_right_mono) simp_all
  also have "\<dots> = 2 powi (b64_exponent x - 53)"
    using pow2_half [of "b64_exponent x"] by simp
  finally show ?thesis .
qed

lemma b64_round_error_below:
  assumes "0 \<le> x" and "x < 2 ^ k"
  shows "\<bar>b64_round x - x\<bar> \<le> 2 powi (int k - 54)"
proof (cases "x = 0")
  case True
  then show ?thesis
    by (simp add: b64_round_def)
next
  case False
  with assms have "b64_exponent x + 1 \<le> int k"
    by (intro b64_exponent_less) simp_all
  then have "(2::rat) powi (b64_exponent x - 53) \<le> 2 powi (int k - 54)"
    by (intro power_int_increasing) simp_all
  with b64_round_error [of x] show ?thesis
    by linarith
qed

lemma float_0_6_error: "\<bar>float_0_6 - 6 / 10\<bar> \<le> 1 / 2 ^ 55"
  by (simp add: float_0_6_def)

lemma b64_round_close:
  assumes "0 \<le> x" and "x < 2 ^ k" and "k < 1024"
  shows "0 \<le> b64_round x" and "b64_round x \<le> 2 ^ k"
    and "\<bar>b64_round x - x\<bar> \<le> 2 ^ k / 2 ^ 54"
proof -
  show "0 \<le> b64_round x" and "b64_round x \<le> 2 ^ k"
    using binary64_bounded [OF assms] by simp_all
  have "(2::rat) powi (int k - 54) = 2 powi int k / 2 powi 54"
    by (rule power_int_diff) simp
  then show "\<bar>b64_round x - x\<bar> \<le> 2 ^ k / 2 ^ 54"
    using b64_round_error_below [OF assms(1,2)] by simp
qed

lemma floats_close:
  assumes "0 \<le> x" and "x \<le> 100" and "0 \<le> d" and "d \<le> 20" and "0 \<le> v" and "v < 100"
  shows "\<bar>b64_round (b64_round (b64_round (b64_round x * float_0_6) + d) + v)
          - (x * (6 / 10) + d + v)\<bar> < 1 / 2 ^ 43"
proof -
  let ?a = "b64_round x"
  let ?b = "b64_round (?a * float_0_6)"
  let ?p = "b64_round (?b + d)"
  let ?t = "b64_round (?p + v)"
  have c: "0 < float_0_6" "float_0_6 < 1"
    by (simp_all add: float_0_6_def)
  have a: "0 \<le> ?a" "?a \<le> 2 ^ 7" "\<bar>?a - x\<bar> \<le> 2 ^ 7 / 2 ^ 54"
    using b64_round_close [of x 7] assms(1,2) by simp_all
  have "?a * float_0_6 \<le> 2 ^ 7 * float_0_6"
    using a(2) c(1) by (intro mult_right_mono) simp_all
  also have "\<dots> < 2 ^ 7"
    using c(2) by simp
  finally have ac: "?a * float_0_6 < 2 ^ 7" .
  have ac0: "0 \<le> ?a * float_0_6"
    using a(1) c(1) by simp
  have b: "0 \<le> ?b" "?b \<le> 2 ^ 7" "\<bar>?b - ?a * float_0_6\<bar> \<le> 2 ^ 7 / 2 ^ 54"
    using b64_round_close [of "?a * float_0_6" 7] ac0 ac by simp_all
  have bd: "0 \<le> ?b + d" "?b + d < 2 ^ 8"
    using b(1,2) assms(3,4) by simp_all
  have p: "0 \<le> ?p" "?p \<le> 2 ^ 8" "\<bar>?p - (?b + d)\<bar> \<le> 2 ^ 8 / 2 ^ 54"
    using b64_round_close [of "?b + d" 8] bd by simp_all
  have pv: "0 \<le> ?p + v" "?p + v < 2 ^ 9"
    using p(1,2) assms(5,6) by simp_all
  have t: "\<bar>?t - (?p + v)\<bar> \<le> 2 ^ 9 / 2 ^ 54"
    using b64_round_close [of "?p + v" 9] pv by simp
  have "?a * float_0_6 - x * (6 / 10) = (?a - x) * float_0_6 + x * (float_0_6 - 6 / 10)"
    by (simp add: algebra_simps)
  then have "\<bar>?a * float_0_6 - x * (6 / 10)\<bar>
      \<le> \<bar>?a - x\<bar> * \<bar>float_0_6\<bar> + \<bar>x\<bar> * \<bar>float_0_6 - 6 / 10\<bar>"
    by (metis abs_mult abs_triangle_ineq)
  also have "\<dots> \<le> 2 ^ 7 / 2 ^ 54 * 1 + 100 * (1 / 2 ^ 55)"
    using a(3) c float_0_6_error assms(1,2)
    by (intro add_mono mult_mono) simp_all
  finally have prod: "\<bar>?a * float_0_6 - x * (6 / 10)\<bar> \<le> 2 ^ 7 / 2 ^ 54 + 100 * (1 / 2 ^ 55)"
    by simp
  have "\<bar>?t - (x * (6 / 10) + d + v)\<bar>
      \<le> \<bar>?t - (?p + v)\<bar> + \<bar>?p - (?b + d)\<bar> + \<bar>?b - ?a * float_0_6\<bar>
          + \<bar>?a * float_0_6 - x * (6 / 10)\<bar>"
    by linarith
  also have "\<dots> \<le> 2 ^ 9 / 2 ^ 54 + 2 ^ 8 / 2 ^ 54 + 2 ^ 7 / 2 ^ 54
      + (2 ^ 7 / 2 ^ 54 + 100 * (1 / 2 ^ 55))"
    using t p(3) b(3) prod by linarith
  also have "\<dots> < 1 / 2 ^ 43"
    by simp
  finally show ?thesis .
qed

lemma floor_close:
  fixes T :: rat
  assumes "0 < M" and "\<bar>T - of_int K / of_int M\<bar> < eps" and "eps \<le> 1 / of_int M" and "eps \<le> 1"
  shows "\<lfloor>of_int K / of_int M :: rat\<rfloor> - 1 \<le> \<lfloor>T\<rfloor> \<and> \<lfloor>T\<rfloor> \<le> \<lfloor>of_int K / of_int M :: rat\<rfloor>"
proof -
  let ?E = "of_int K / of_int M :: rat"
  have "?E < of_int (\<lfloor>?E\<rfloor> + 1)"
    by linarith
  then have "(of_int K :: rat) < of_int (\<lfloor>?E\<rfloor> + 1) * of_int M"
    using assms(1) by (simp add: pos_divide_less_eq)
  then have "(of_int K :: rat) < of_int ((\<lfloor>?E\<rfloor> + 1) * M)"
    by simp
  then have "K < (\<lfloor>?E\<rfloor> + 1) * M"
    by (simp only: of_int_less_iff)
  then have "K + 1 \<le> (\<lfloor>?E\<rfloor> + 1) * M"
    by simp
  then have "(of_int (K + 1) :: rat) \<le> of_int ((\<lfloor>?E\<rfloor> + 1) * M)"
    by (simp only: of_int_le_iff)
  then have "(of_int K + 1) / of_int M \<le> (of_int (\<lfloor>?E\<rfloor> + 1) :: rat)"
    using assms(1) by (simp add: pos_divide_le_eq)
  then have up: "?E + 1 / of_int M \<le> of_int \<lfloor>?E\<rfloor> + 1"
    by (simp add: add_divide_distrib)
  have "T < ?E + eps"
    using assms(2) by linarith
  with up assms(3) have "T < of_int \<lfloor>?E\<rfloor> + 1"
    by linarith
  then have hi: "\<lfloor>T\<rfloor> \<le> \<lfloor>?E\<rfloor>"
    by (simp add: floor_le_iff)
  have "of_int \<lfloor>?E\<rfloor> \<le> ?E"
    by linarith
  with assms(2,4) have "of_int (\<lfloor>?E\<rfloor> - 1) \<le> T"
    by simp linarith
  then have lo: "\<lfloor>?E\<rfloor> - 1 \<le> \<lfloor>T\<rfloor>"
    by (simp only: le_floor_iff)
  from lo hi show ?thesis ..
qed

lemma clamp_near:
  fixes a b :: int
  assumes "b - 1 \<le> a" and "a \<le> b"
  shows "min (max b 10) 99 - 1 \<le> min (max a 10) 99 \<and> min (max a 10) 99 \<le> min (max b 10) 99"
  using assms by (auto simp add: min_def max_def)

lemma score_near_exact:
  assumes "0 \<le> S" and "S \<le> 100 * n" and "0 < n" and "n < 2 ^ 40"
    and "0 \<le> d" and "d \<le> 20" and "0 \<le> v" and "v < 2 ^ 53"
  shows "min (max \<lfloor>of_int S / of_int n * (6 / 10) + of_int d + of_int v :: rat\<rfloor> 10) 99 - 1
       \<le> min (max \<lfloor>b64_round (b64_round (b64_round (b64_round (of_int S / of_int n)
                        * b64_round (6 / 10)) + of_int d) + of_int v)\<rfloor> 10) 99
     \<and> min (max \<lfloor>b64_round (b64_round (b64_round (b64_round (of_int S / of_int n)
                        * b64_round (6 / 10)) + of_int d) + of_int v)\<rfloor> 10) 99
       \<le> min (max \<lfloor>of_int S / of_int n * (6 / 10) + of_int d + of_int v :: rat\<rfloor> 10) 99"
proof -
  let ?x = "of_int S / of_int n :: rat"
  let ?E = "?x * (6 / 10) + of_int d + of_int v"
  let ?p = "b64_round (b64_round (b64_round ?x * float_0_6) + of_int d)"
  let ?T = "b64_round (?p + of_int v)"
  have x: "0 \<le> ?x" "?x \<le> 100"
  proof -
    show "0 \<le> ?x"
      using assms(1,3) by simp
    have "(of_int S :: rat) \<le> of_int (100 * n)"
      using assms(2) by (simp only: of_int_le_iff)
    then show "?x \<le> 100"
      using assms(3) by (simp add: pos_divide_le_eq)
  qed
  have dv: "0 \<le> (of_int d :: rat)" "(of_int d :: rat) \<le> 20" "0 \<le> (of_int v :: rat)"
    using assms(5,6,7) by simp_all
  have near: "\<lfloor>?E\<rfloor> - 1 \<le> \<lfloor>?T\<rfloor> \<and> \<lfloor>?T\<rfloor> \<le> \<lfloor>?E\<rfloor>" if small: "v < 100"
  proof -
    let ?M = "5 * n"
    let ?K = "3 * S + 5 * n * (d + v)"
    have M: "0 < ?M"
      using assms(3) by simp
    have E: "?E = of_int ?K / of_int ?M"
      using assms(3) by (simp add: field_simps)
    have "(of_int v :: rat) < 100"
      using small by simp
    with x dv have close: "\<bar>?T - ?E\<bar> < 1 / 2 ^ 43"
      by (intro floats_close) simp_all
    have "?M < 2 ^ 43"
      using assms(4) by simp
    then have "(of_int ?M :: rat) < of_int (2 ^ 43)"
      by (simp only: of_int_less_iff)
    then have eps: "(1::rat) / 2 ^ 43 \<le> 1 / of_int ?M"
      using M by (simp add: field_simps)
    show ?thesis
      unfolding E
      by (rule floor_close [OF M close [unfolded E] eps]) simp
  qed
  have big: "100 \<le> \<lfloor>?T\<rfloor> \<and> 100 \<le> \<lfloor>?E\<rfloor>" if large: "100 \<le> v"
  proof -
    have p: "0 \<le> ?p"
      using x dv float_0_6_pos by (intro b64_round_nonneg add_nonneg_nonneg mult_nonneg_nonneg) simp_all
    have "b64_round (of_int v) \<le> ?T"
      using p by (intro b64_round_mono) simp
    moreover have "b64_round (of_int v) = of_int v"
      using assms(7,8) by (intro b64_round_of_int) simp
    moreover have "(100::rat) \<le> of_int v"
      using large by simp
    ultimately have "100 \<le> ?T"
      by simp
    then have T: "100 \<le> \<lfloor>?T\<rfloor>"
      by (simp only: numeral_le_floor)
    have "(100::rat) \<le> of_int v"
      using large by simp
    moreover have "0 \<le> ?x * (6 / 10)"
      using x by simp
    ultimately have "100 \<le> ?E"
      using dv by linarith
    then have "100 \<le> \<lfloor>?E\<rfloor>"
      by (simp only: numeral_le_floor)
    with T show ?thesis ..
  qed
  show ?thesis
  proof (cases "v < 100")
    case True
    from clamp_near [of "\<lfloor>?E\<rfloor>" "\<lfloor>?T\<rfloor>"] near [OF True] show ?thesis
      unfolding float_0_6_eq by blast
  next
    case False
    then have "100 \<le> \<lfloor>?T\<rfloor> \<and> 100 \<le> \<lfloor>?E\<rfloor>"
      by (intro big) simp
    then have "min (max \<lfloor>?T\<rfloor> 10) 99 = 99 \<and> min (max \<lfloor>?E\<rfloor> 10) 99 = 99"
      by (simp only: min_def max_def) presburger
    then show ?thesis
      unfolding float_0_6_eq by (simp only:) simp
  qed
qed

lemma calculate_access_score_near_claimed:
  assumes "nodes \<noteq> []" and "\<forall>n\<in>set nodes. 0 \<le> warm_score n \<and> warm_score n \<le> 100"
    and "length nodes < 2 ^ 40"
  shows "\<exists>s. calculate_access_score nodes = Inr s
     \<and> claimed_access_score nodes - 1 \<le> s \<and> s \<le> claimed_access_score nodes"
proof -
  let ?S = "sum_list (map warm_score nodes)"
  let ?n = "int (length nodes)"
  let ?d = "min (5 * int (length (filter (\<lambda>n. hop_distance n = 1) nodes))) 20"
  let ?v = "3 * int (card (set (map relationship_type nodes)))"
  have S: "0 \<le> ?S" "?S \<le> 100 * ?n"
    using sum_list_bounds [of "map warm_score nodes" 100] assms(2) by simp_all
  have n: "0 < ?n" "?n < 2 ^ 40"
    using assms(1,3) by simp_all
  have "card (set (map relationship_type nodes)) \<le> length nodes"
    using card_length [of "map relationship_type nodes"] by simp
  with assms(3) have "?v < 3 * 2 ^ 40"
    by simp
  then have v: "0 \<le> ?v" "?v < 2 ^ 53"
    by simp_all
  have d: "0 \<le> ?d" "?d \<le> 20"
    by simp_all
  have len: "length nodes < 2 ^ 51"
    using assms(3) by simp
  have claimed: "claimed_access_score nodes =
      min (max \<lfloor>of_int ?S / of_int ?n * (6 / 10) + of_int ?d + of_int ?v :: rat\<rfloor> 10) 99"
    using assms(1) by (simp only: claimed_access_score_def Let_def if_False)
  show ?thesis
    unfolding calculate_access_score_wf [OF assms(1,2) len] claimed
    using score_near_exact [OF S n d v] by blast
qed

text \<open>
  Three rows with the warm scores 40, 35 and 35, none of them direct, all of one
  relationship type. The mean \<open>110 / 3\<close> rounds down to a float, its product with the
  float \<^verbatim>\<open>0.6\<close> rounds to the float just below 22, and adding 3 gives the float just below
  25, which \<^verbatim>\<open>int\<close> truncates to 24. In exact arithmetic the sum is 25.
\<close>

lemma floats_trio:
  "\<lfloor>b64_round (b64_round (b64_round (b64_round (of_int 110 / of_int 3) * b64_round (6 / 10))
              + of_int 0) + of_int 3)\<rfloor> = 24"
  by code_simp

lemma score_from_trio: "score_from 110 3 0 3 = Inr 24"
proof -
  have "score_from 110 3 0 3 =
     Inr (min (max \<lfloor>b64_round (b64_round (b64_round (b64_round (of_int 110 / of_int 3)
                        * b64_round (6 / 10)) + of_int 0) + of_int 3)\<rfloor> 10) 99)"
    by (rule score_from_wf) simp_all
  also have "\<dots> = Inr 24"
    unfolding floats_trio by simp
  finally show ?thesis .
qed

lemma calculate_access_score_trio: "calculate_access_score example_trio = Inr 24"
proof -
  have "calculate_access_score example_trio = score_from 110 3 0 3"
    by (simp add: calculate_access_score_eq example_trio_def example_row_def)
  then show ?thesis
    by (simp only: score_from_trio)
qed

lemma claimed_access_score_trio: "claimed_access_score example_trio = 25"
  by (simp add: claimed_access_score_def example_trio_def example_row_def)

text \<open>
  C2, as stated. The claim gives the score of a non-empty set as
  \<open>\<lfloor>avg_warm \<times> 0.6 + direct_bonus + variety_bonus\<rfloor>\<close> clamped to the range from 10 to 99.
  For the three example rows this is 25; the code returns 24.
\<close>

theorem claimed_access_score_counterexample:
  "calculate_access_score example_trio = Inr 24 \<and> claimed_access_score example_trio = 25"
  by (simp only: calculate_access_score_trio claimed_access_score_trio simp_thms)

text \<open>
  C2, amended. Whenever the access score is returned it lies between 10 and 99; for no
  rows it is 30. For at least one and fewer than \<open>2 ^ 40\<close> rows with warm scores
  between 0 and 100 it is returned, and it is the floor, clamped to the range from 10 to
  99, of the sum that the claim gives, evaluated in float arithmetic: the mean, its
  product with the float \<^verbatim>\<open>0.6\<close> and the two sums are each rounded to the nearest
  binary64 number, ties to even. This is the value that the claim gives in exact
  arithmetic, or one less.
\<close>

theorem calculate_access_score_binary64:
  "calculate_access_score [] = Inr 30
   \<and> (\<forall>s. calculate_access_score nodes = Inr s \<longrightarrow> 10 \<le> s \<and> s \<le> 99)
   \<and> (nodes \<noteq> [] \<and> (\<forall>n\<in>set nodes. 0 \<le> warm_score n \<and> warm_score n \<le> 100)
        \<and> length nodes < 2 ^ 40 \<longrightarrow>
      calculate_access_score nodes =
        Inr (min (max \<lfloor>b64_round (b64_round (b64_round
               (b64_round (of_int (sum_list (map warm_score nodes)) / of_int (int (length nodes)))
                  * b64_round (6 / 10))
                + of_int (min (5 * int (length (filter (\<lambda>n. hop_distance n = 1) nodes))) 20))
                + of_int (3 * int (card (set (map relationship_type nodes)))))\<rfloor> 10) 99)
      \<and> (\<exists>s. calculate_access_score nodes = Inr s
             \<and> claimed_access_score nodes - 1 \<le> s \<and> s \<le> claimed_access_score nodes))"
proof (intro conjI allI impI)
  show "calculate_access_score [] = Inr 30"
    by (simp add: calculate_access_score_def)
next
  fix s
  assume "calculate_access_score nodes = Inr s"
  then have "10 \<le> s \<and> s \<le> 99"
    by (auto simp add: calculate_access_score_eq split: if_splits dest: score_from_range)
  then show "10 \<le> s" and "s \<le> 99"
    by simp_all
next
  assume wf: "nodes \<noteq> [] \<and> (\<forall>n\<in>set nodes. 0 \<le> warm_score n \<and> warm_score n \<le> 100)
        \<and> length nodes < 2 ^ 40"
  then have "length nodes < 2 ^ 51"
    by simp
  with wf show "calculate_access_score nodes =
        Inr (min (max \<lfloor>b64_round (b64_round (b64_round
               (b64_round (of_int (sum_list (map warm_score nodes)) / of_int (int (length nodes)))
                  * b64_round (6 / 10))
                + of_int (min (5 * int (length (filter (\<lambda>n. hop_distance n = 1) nodes))) 20))
                + of_int (3 * int (card (set (map relationship_type nodes)))))\<rfloor> 10) 99)"
    by (intro calculate_access_score_wf) simp_all
  from wf show "\<exists>s. calculate_access_score nodes = Inr s
             \<and> claimed_access_score nodes - 1 \<le> s \<and> s \<le> claimed_access_score nodes"
    by (intro calculate_access_score_near_claimed) simp_all
qed

theorem calculate_access_score_binary64_witness:
  "example_trio \<noteq> []
   \<and> list_all (\<lambda>n. 0 \<le> warm_score n \<and> warm_score n \<le> 100) example_trio
   \<and> length example_trio < 2 ^ 40
   \<and> calculate_access_score example_trio =
       Inr (min (max \<lfloor>b64_round (b64_round (b64_round
              (b64_round (of_int 110 / of_int 3) * b64_round (6 / 10)) + of_int 0)
              + of_int 3)\<rfloor> 10) 99)
   \<and> calculate_access_score example_trio = Inr 24
   \<and> (10::int) \<le> 24 \<and> (24::int) \<le> 99
   \<and> claimed_access_score example_trio - 1 \<le> 24 \<and> 24 \<le> claimed_access_score example_trio"
proof -
  have wf: "example_trio \<noteq> []"
    "\<forall>n\<in>set example_trio. 0 \<le> warm_score n \<and> warm_score n \<le> 100"
    "length example_trio < 2 ^ 40"
    by (simp_all add: example_trio_def example_row_def)
  have rows: "sum_list (map warm_score example_trio) = 110"
    "int (length example_trio) = 3"
    "min (5 * int (length (filter (\<lambda>n. hop_distance n = 1) example_trio))) 20 = 0"
    "3 * int (card (set (map relationship_type example_trio))) = 3"
    by (simp_all add: example_trio_def example_row_def)
  from calculate_access_score_binary64 [of example_trio] wf
  have closed_form: "calculate_access_score example_trio =
       Inr (min (max \<lfloor>b64_round (b64_round (b64_round
              (b64_round (of_int 110 / of_int 3) * b64_round (6 / 10)) + of_int 0)
              + of_int 3)\<rfloor> 10) 99)"
    and range: "\<forall>s. calculate_access_score example_trio = Inr s \<longrightarrow> 10 \<le> s \<and> s \<le> 99"
    and near: "\<exists>s. calculate_access_score example_trio = Inr s
             \<and> claimed_access_score example_trio - 1 \<le> s
             \<and> s \<le> claimed_access_score example_trio"
    unfolding rows by blast+
  have val: "calculate_access_score example_trio = Inr 24"
    by (rule calculate_access_score_trio)
  with range have "(10::int) \<le> 24 \<and> (24::int) \<le> 99"
    by blast
  moreover from near val
  have "claimed_access_score example_trio - 1 \<le> 24 \<and> 24 \<le> claimed_access_score example_trio"
    by auto
  ultimately show ?thesis
    using wf closed_form val by (simp add: list_all_iff)
qed

lemma set_warm_score_facts:
  assumes "i < length nodes"
  shows "length (set_warm_score nodes i w) = length nodes"
    and "map hop_distance (set_warm_score nodes i w) = map hop_distance nodes"
    and "map relationship_type (set_warm_score nodes i w) = map relationship_type nodes"
    and "sum_list (map warm_score (set_warm_score nodes i w))
          = sum_list (map warm_score nodes) - warm_score (nodes ! i) + w"
proof -
  show "length (set_warm_score nodes i w) = length nodes"
    by (simp add: set_warm_score_def)
  show "map hop_distance (set_warm_score nodes i w) = map hop_distance nodes"
    using assms by (simp add: set_warm_score_def map_update list_update_same_conv)
  show "map relationship_type (set_warm_score nodes i w) = map relationship_type nodes"
    using assms by (simp add: set_warm_score_def map_update list_update_same_conv)
  show "sum_list (map warm_score (set_warm_score nodes i w))
          = sum_list (map warm_score nodes) - warm_score (nodes ! i) + w"
    using assms sum_list_update_int [of i "map warm_score nodes" w]
    by (simp add: set_warm_score_def map_update)
qed

lemma set_warm_score_direct:
  assumes "i < length nodes"
  shows "length (filter (\<lambda>n. hop_distance n = 1) (set_warm_score nodes i w))
         = length (filter (\<lambda>n. hop_distance n = 1) nodes)"
proof -
  have eq: "length (filter (\<lambda>n. hop_distance n = 1) xs)
        = length (filter (\<lambda>h. h = 1) (map hop_distance xs))" for xs :: "node list"
    by (induction xs) simp_all
  show ?thesis
    by (simp only: eq set_warm_score_facts(2) [OF assms])
qed

text \<open>
  C3. Raising the warm score of one row, with every other row and field as it was, does not
  lower the access score: when both computations return, the second score is at least
  the first. Both return when the warm scores, the raised one included, lie between 0
  and 100 and there are fewer than \<open>2 ^ 51\<close> rows.
\<close>

theorem calculate_access_score_monotone:
  assumes "i < length nodes" and "warm_score (nodes ! i) \<le> w"
  shows "(\<forall>s s'. calculate_access_score nodes = Inr s
            \<and> calculate_access_score (set_warm_score nodes i w) = Inr s' \<longrightarrow> s \<le> s')
     \<and> ((\<forall>n\<in>set nodes. 0 \<le> warm_score n \<and> warm_score n \<le> 100) \<and> w \<le> 100
          \<and> length nodes < 2 ^ 51 \<longrightarrow>
        (\<exists>s s'. calculate_access_score nodes = Inr s
            \<and> calculate_access_score (set_warm_score nodes i w) = Inr s' \<and> s \<le> s'))"
proof -
  have ne: "nodes \<noteq> []" "set_warm_score nodes i w \<noteq> []"
    using assms(1) by (auto simp add: set_warm_score_def)
  have S: "sum_list (map warm_score nodes) \<le> sum_list (map warm_score (set_warm_score nodes i w))"
    using assms by (simp add: set_warm_score_facts(4))
  have mono: "s \<le> s'"
    if "calculate_access_score nodes = Inr s"
      and "calculate_access_score (set_warm_score nodes i w) = Inr s'" for s s'
    using that ne assms(1)
    by (simp add: calculate_access_score_eq set_warm_score_facts(1,3) set_warm_score_direct)
       (rule score_from_mono [OF S], simp_all)
  have returns: "\<exists>s s'. calculate_access_score nodes = Inr s
      \<and> calculate_access_score (set_warm_score nodes i w) = Inr s'"
    if wf: "\<forall>n\<in>set nodes. 0 \<le> warm_score n \<and> warm_score n \<le> 100"
      and w: "w \<le> 100" and len: "length nodes < 2 ^ 51"
  proof -
    have "0 \<le> w"
      using wf assms by (meson nth_mem order_trans)
    then have "\<forall>n\<in>set (set_warm_score nodes i w). 0 \<le> warm_score n \<and> warm_score n \<le> 100"
      using wf w assms(1) by (auto simp add: set_warm_score_def set_conv_nth nth_list_update)
    moreover have "length (set_warm_score nodes i w) < 2 ^ 51"
      using len by (simp add: set_warm_score_def)
    ultimately show ?thesis
      using calculate_access_score_wf [OF ne(1) wf len]
        calculate_access_score_wf [OF ne(2), of ] by blast
  qed
  from mono returns show ?thesis
    by blast
qed

subsection \<open>Scores and ranking of nodes\<close>

lemma foldl_boost:
  "foldl (\<lambda>score conn. if P conn then score + 10 else score) s cs
     = s + 10 * int (length (filter P cs))"
  by (induction cs arbitrary: s) simp_all

lemma context_score_eq:
  "context_score lower ctx n =
     warm_score n +
     (case ctx of
        None \<Rightarrow> 0
      | Some c \<Rightarrow>
          (if lower (industry c) \<noteq> [] \<and> sublist (lower (industry c)) (node_text lower n)
           then 15 else 0) +
          10 * int (length (filter (\<lambda>conn. sublist (lower conn) (node_text lower n)) (connections c))))"
  by (cases ctx) (simp_all add: context_score_def Let_def foldl_boost filter_map comp_def)

lemma final_score_with [simp]: "final_score (with_final_score lower ctx n) = context_score lower ctx n"
  by (simp add: with_final_score_def node.defs scored_node.defs)

lemma hop_with [simp]: "hop_distance (with_final_score lower ctx n) = hop_distance n"
  by (simp add: with_final_score_def node.defs scored_node.defs)

lemma insort_key_flag:
  assumes "\<not> b x" and "\<forall>y\<in>set ys. \<not> b y"
  shows "insort_key (\<lambda>x. (b x, g x)) x ys = insort_key g x ys"
  using assms by (induction ys) (simp_all add: less_eq_prod_def)

lemma sort_key_flag:
  assumes "\<forall>y\<in>set xs. \<not> b y"
  shows "sort_key (\<lambda>x. (b x, g x)) xs = sort_key g xs"
  using assms by (induction xs) (simp_all add: insort_key_flag)

lemma sort_nodes_by_score:
  assumes "\<forall>x\<in>set xs. hop_distance x \<noteq> - 1"
  shows "sort_nodes xs = sort_key (\<lambda>x. - final_score x) xs"
  unfolding sort_nodes_def using assms by (intro sort_key_flag) auto

lemma set_sort_nodes [simp]: "set (sort_nodes xs) = set xs"
  by (simp add: sort_nodes_def)

lemma length_sort_nodes [simp]: "length (sort_nodes xs) = length xs"
  by (simp add: sort_nodes_def)

lemma sort_nodes_Nil [simp]: "sort_nodes xs = [] \<longleftrightarrow> xs = []"
  by (metis length_sort_nodes length_0_conv)

lemma filter_case_find:
  "(case filter P xs of [] \<Rightarrow> [] | b # _ \<Rightarrow> [f b]) =
   (case find P xs of None \<Rightarrow> [] | Some b \<Rightarrow> [f b])"
  by (induction xs) simp_all

lemma build_path_Cons:
  "build_path (entry # rest) =
     Inr (if 1 < hop_distance entry
          then (case find (\<lambda>n. hop_distance n = 1) (entry # rest) of
                  None \<Rightarrow> [path_entry_of entry]
                | Some bridge \<Rightarrow> [path_entry_of entry, path_entry_of bridge])
          else [path_entry_of entry])"
  unfolding build_path_def filter_case_find
  by (simp split: option.split)

lemma warm_with [simp]: "warm_score (with_final_score lower ctx n) = warm_score n"
  by (simp add: with_final_score_def node.defs scored_node.defs)

lemma path_entry_of_simps [simp]:
  "p_hop (path_entry_of n) = hop_distance n"
  "p_warm_score (path_entry_of n) = warm_score n"
  by (simp_all add: path_entry_of_def)

lemma truediv_small:
  assumes "0 \<le> S" and "S \<le> 100 * n" and "0 < n"
  shows "truediv S n = Inr (b64_round (of_int S / of_int n))"
proof -
  have "(of_int S :: rat) \<le> of_int (100 * n)"
    using assms(2) by (simp only: of_int_le_iff)
  then have "(of_int S :: rat) / of_int n \<le> 100"
    using assms(3) by (simp add: pos_divide_le_eq)
  moreover have "0 \<le> (of_int S :: rat) / of_int n"
    using assms(1,3) by simp
  ultimately have "binary64 (of_int S / of_int n) = Inr (b64_round (of_int S / of_int n))
      \<and> 0 \<le> b64_round (of_int S / of_int n) \<and> b64_round (of_int S / of_int n) \<le> 2 ^ 7"
    by (intro binary64_bounded) simp_all
  with assms(3) show ?thesis
    by (simp add: truediv_def)
qed

lemma build_path_eq: "ranked \<noteq> [] \<Longrightarrow> build_path ranked = Inr (path_of ranked)"
  by (cases ranked) (simp_all add: build_path_Cons path_of_def)

lemma find_best_path_eq:
  assumes "nodes \<noteq> []"
  shows "find_best_path lower nodes ctx =
     and_then (truediv (sum_list (map p_warm_score (path_of (sort_nodes (map (with_final_score lower ctx) nodes)))))
                 (int (length (path_of (sort_nodes (map (with_final_score lower ctx) nodes)))))) (\<lambda>avg.
       Inr \<lparr>path = path_of (sort_nodes (map (with_final_score lower ctx) nodes)),
            total_hops = max_hop (path_of (sort_nodes (map (with_final_score lower ctx) nodes))) + 1,
            path_score = py_int avg,
            entry_point = Some (hd (path_of (sort_nodes (map (with_final_score lower ctx) nodes)))),
            all_nodes = Some (map summary_of (take 8 (sort_nodes (map (with_final_score lower ctx) nodes))))\<rparr>)"
  using assms by (simp add: find_best_path_def Let_def build_path_eq and_then_def)

subsection \<open>The best path\<close>

lemma path_of_Cons:
  "path_of (entry # rest) =
     (if 1 < hop_distance entry
      then (case find (\<lambda>n. hop_distance n = 1) (entry # rest) of
              None \<Rightarrow> [path_entry_of entry]
            | Some bridge \<Rightarrow> [path_entry_of entry, path_entry_of bridge])
      else [path_entry_of entry])"
  by (simp add: path_of_def)

lemma path_of_length: "ranked \<noteq> [] \<Longrightarrow> length (path_of ranked) = 1 \<or> length (path_of ranked) = 2"
  by (cases ranked) (simp_all add: path_of_def split: option.split)

lemma hd_path_of: "hd (path_of (entry # rest)) = path_entry_of entry"
  by (simp add: path_of_def split: option.split)

lemma path_of_warm:
  assumes "ranked \<noteq> []" and "\<forall>x\<in>set ranked. 0 \<le> warm_score x \<and> warm_score x \<le> 100"
  shows "0 \<le> sum_list (map p_warm_score (path_of ranked))
     \<and> sum_list (map p_warm_score (path_of ranked)) \<le> 100 * int (length (path_of ranked))"
proof -
  have "\<forall>e\<in>set (path_of ranked). 0 \<le> p_warm_score e \<and> p_warm_score e \<le> 100"
    using assms
    by (cases ranked) (auto simp add: path_of_def find_Some_iff split: option.splits if_splits)
  then show ?thesis
    using sum_list_bounds [of "map p_warm_score (path_of ranked)" 100] by simp
qed

lemma find_best_path_returns:
  assumes "nodes \<noteq> []" and "\<forall>n\<in>set nodes. 0 \<le> warm_score n \<and> warm_score n \<le> 100"
  shows "\<exists>r. find_best_path lower nodes ctx = Inr r"
proof -
  let ?ranked = "sort_nodes (map (with_final_score lower ctx) nodes)"
  have ne: "?ranked \<noteq> []"
    using assms(1) by simp
  have "\<forall>x\<in>set ?ranked. 0 \<le> warm_score x \<and> warm_score x \<le> 100"
    using assms(2) by auto
  with ne have S: "0 \<le> sum_list (map p_warm_score (path_of ?ranked))
     \<and> sum_list (map p_warm_score (path_of ?ranked)) \<le> 100 * int (length (path_of ?ranked))"
    by (rule path_of_warm)
  have "0 < int (length (path_of ?ranked))"
    using path_of_length [OF ne] by auto
  with S have "truediv (sum_list (map p_warm_score (path_of ?ranked))) (int (length (path_of ?ranked)))
      = Inr (b64_round (of_int (sum_list (map p_warm_score (path_of ?ranked)))
               / of_int (int (length (path_of ?ranked)))))"
    by (intro truediv_small) simp_all
  then show ?thesis
    by (simp add: find_best_path_eq [OF assms(1)])
qed

text \<open>
  C10. On at least one row, the entry point is the top-ranked node. When its hop distance
  is greater than 1 and some row has hop distance 1, the path is the entry node followed
  by the first 1-hop node of the ranking; in every other case the path is the entry node
  alone. So the path has one or two elements. The result is returned whenever the warm
  scores lie between 0 and 100.
\<close>

theorem find_best_path_shape:
  assumes "nodes \<noteq> []"
  shows "\<exists>entry rest.
       sort_nodes (map (with_final_score lower ctx) nodes) = entry # rest
     \<and> (\<forall>r. find_best_path lower nodes ctx = Inr r \<longrightarrow>
          entry_point r = Some (path_entry_of entry)
          \<and> (if 1 < hop_distance entry \<and> (\<exists>n\<in>set nodes. hop_distance n = 1)
             then \<exists>bridge. find (\<lambda>n. hop_distance n = 1) (entry # rest) = Some bridge
                    \<and> path r = [path_entry_of entry, path_entry_of bridge]
                    \<and> 1 < p_hop (path_entry_of entry) \<and> p_hop (path_entry_of bridge) = 1
             else path r = [path_entry_of entry])
          \<and> (length (path r) = 1 \<or> length (path r) = 2))
     \<and> ((\<forall>n\<in>set nodes. 0 \<le> warm_score n \<and> warm_score n \<le> 100) \<longrightarrow>
          (\<exists>r. find_best_path lower nodes ctx = Inr r))"
proof -
  let ?ranked = "sort_nodes (map (with_final_score lower ctx) nodes)"
  from assms obtain entry rest where ranked: "?ranked = entry # rest"
    by (cases ?ranked) simp_all
  have hops: "(\<exists>n\<in>set nodes. hop_distance n = 1) \<longleftrightarrow> (\<exists>x\<in>set (entry # rest). hop_distance x = 1)"
    unfolding ranked [symmetric] by auto
  have shape: "entry_point r = Some (path_entry_of entry)
          \<and> (if 1 < hop_distance entry \<and> (\<exists>n\<in>set nodes. hop_distance n = 1)
             then \<exists>bridge. find (\<lambda>n. hop_distance n = 1) (entry # rest) = Some bridge
                    \<and> path r = [path_entry_of entry, path_entry_of bridge]
                    \<and> 1 < p_hop (path_entry_of entry) \<and> p_hop (path_entry_of bridge) = 1
             else path r = [path_entry_of entry])
          \<and> (length (path r) = 1 \<or> length (path r) = 2)"
    if r: "find_best_path lower nodes ctx = Inr r" for r
  proof -
    from r have p: "path r = path_of (entry # rest)"
      and e: "entry_point r = Some (hd (path_of (entry # rest)))"
      by (auto simp add: find_best_path_eq [OF assms] ranked and_then_Inr_iff)
    show ?thesis
    proof (cases "1 < hop_distance entry \<and> (\<exists>n\<in>set nodes. hop_distance n = 1)")
      case True
      then obtain x where "x \<in> set (entry # rest)" "hop_distance x = 1"
        using hops by blast
      then have "find (\<lambda>n. hop_distance n = 1) (entry # rest) \<noteq> None"
        unfolding find_None_iff by blast
      then obtain bridge where b: "find (\<lambda>n. hop_distance n = 1) (entry # rest) = Some bridge"
        by blast
      then have "hop_distance bridge = 1"
        unfolding find_Some_iff by blast
      with True b p e show ?thesis
        by (simp add: path_of_Cons hd_path_of del: find.simps)
    next
      case no_bridge: False
      have "path_of (entry # rest) = [path_entry_of entry]"
      proof (cases "1 < hop_distance entry")
        case True
        with no_bridge hops have "\<not> (\<exists>x. x \<in> set (entry # rest) \<and> hop_distance x = 1)"
          by blast
        then have "find (\<lambda>n. hop_distance n = 1) (entry # rest) = None"
          unfolding find_None_iff .
        with True show ?thesis
          by (simp add: path_of_Cons del: find.simps)
      next
        case False
        then show ?thesis
          by (simp add: path_of_Cons del: find.simps)
      qed
      with no_bridge p e show ?thesis
        by (simp add: hd_path_of)
    qed
  qed
  from ranked shape find_best_path_returns [OF assms, where lower = lower and ctx = ctx] show ?thesis
    by blast
qed

lemma truediv_exact:
  assumes "0 < n" and "n dvd S" and "\<bar>S div n\<bar> < 2 ^ 53"
  shows "truediv S n = Inr (of_int (S div n))"
proof -
  from assms(2) obtain k where k: "S = n * k"
    by (rule dvdE)
  with assms(1) have "(of_int S :: rat) / of_int n = of_int (S div n)"
    by simp
  with assms(1,3) show ?thesis
    by (simp add: truediv_def float_of_int_exact)
qed

lemma sort_nodes_example:
  "sort_nodes [with_final_score lower None example_indirect, with_final_score lower None example_direct]
     = [with_final_score lower None example_indirect, with_final_score lower None example_direct]"
  by (simp add: sort_nodes_def context_score_def example_indirect_def example_direct_def
      less_eq_prod_def)

lemma find_best_path_example:
  "find_best_path lower [example_indirect, example_direct] None =
     Inr \<lparr>path =
            [\<lparr>p_person_name = ''Ada'', p_role = Some ''Agent'',
              p_relationship_type = Some ''manager'', p_hop = 2, p_warm_score = 90,
              p_why_warm = Some ''worked together'', p_contact_info = None,
              p_node_id = ''n1''\<rparr>,
             \<lparr>p_person_name = ''Bo'', p_role = Some ''Investor'',
              p_relationship_type = Some ''investor'', p_hop = 1, p_warm_score = 50,
              p_why_warm = Some ''seed round'', p_contact_info = Some ''bo@example.org'',
              p_node_id = ''n2''\<rparr>],
          total_hops = 3, path_score = 70,
          entry_point =
            Some \<lparr>p_person_name = ''Ada'', p_role = Some ''Agent'',
              p_relationship_type = Some ''manager'', p_hop = 2, p_warm_score = 90,
              p_why_warm = Some ''worked together'', p_contact_info = None,
              p_node_id = ''n1''\<rparr>,
          all_nodes =
            Some [\<lparr>s_person_name = ''Ada'', s_role = Some ''Agent'', s_warm_score = 90,
                   s_hop_distance = 2, s_relationship_type = Some ''manager'',
                   s_contact_info = None, s_node_id = ''n1''\<rparr>,
                  \<lparr>s_person_name = ''Bo'', s_role = Some ''Investor'', s_warm_score = 50,
                   s_hop_distance = 1, s_relationship_type = Some ''investor'',
                   s_contact_info = Some ''bo@example.org'', s_node_id = ''n2''\<rparr>]\<rparr>"
proof -
  have t: "truediv 140 2 = Inr 70"
    using truediv_exact [of 2 140] by simp
  have p: "path_of [with_final_score lower None example_indirect, with_final_score lower None example_direct]
      = [path_entry_of (with_final_score lower None example_indirect),
         path_entry_of (with_final_score lower None example_direct)]"
    by (simp add: path_of_def example_indirect_def example_direct_def)
  have w: "warm_score example_indirect = 90" "warm_score example_direct = 50"
    "hop_distance example_indirect = 2" "hop_distance example_direct = 1"
    by (simp_all add: example_indirect_def example_direct_def)
  have "find_best_path lower [example_indirect, example_direct] None =
     Inr \<lparr>path = [path_entry_of (with_final_score lower None example_indirect),
                  path_entry_of (with_final_score lower None example_direct)],
          total_hops = 3, path_score = 70,
          entry_point = Some (path_entry_of (with_final_score lower None example_indirect)),
          all_nodes = Some [summary_of (with_final_score lower None example_indirect),
                            summary_of (with_final_score lower None example_direct)]\<rparr>"
    by (simp add: find_best_path_eq sort_nodes_example p w t max_hop_def py_int_def)
  then show ?thesis
    by (simp add: path_entry_of_def summary_of_def with_final_score_def node.defs
        scored_node.defs example_indirect_def example_direct_def)
qed

text \<open>
  C1. The claim: when some node has hop distance 1, the entry point of the path has hop
  distance 1 or the path has exactly one node. The comments of the code say the same
  (\<^verbatim>\<open>prioritize 1-hop nodes\<close>, \<^verbatim>\<open>pick best 1-hop entry point\<close>). On the rows \<^verbatim>\<open>Ada\<close>
  (hop distance 2, warm score 90) and \<^verbatim>\<open>Bo\<close> (hop distance 1, warm score 50) the code
  returns a path of two nodes whose entry point is \<^verbatim>\<open>Ada\<close>, of hop distance 2.
\<close>

theorem find_best_path_indirect_entry:
  "\<exists>r entry bridge.
     find_best_path lower [example_indirect, example_direct] None = Inr r
     \<and> path r = [entry, bridge] \<and> entry_point r = Some entry
     \<and> p_node_id entry = ''n1'' \<and> p_hop entry = 2
     \<and> p_node_id bridge = ''n2'' \<and> p_hop bridge = 1"
  by (simp add: find_best_path_example)

lemma context_score_empty_industry:
  "context_score lower_latin1 (Some no_industry) example_direct = 50"
  by code_simp

lemma claimed_final_score_empty_industry:
  "claimed_final_score lower_latin1 (Some no_industry) example_direct = 65"
  by code_simp

lemma context_score_example:
  "context_score lower_latin1 (Some example_context) example_direct = 60"
  by code_simp

lemma claimed_final_score_example:
  "claimed_final_score lower_latin1 (Some example_context) example_direct = 50"
  by code_simp

text \<open>
  C4, as stated. The claim adds 15 whenever the industry occurs in the concatenation of
  role, rationale and relationship type, and 10 per connection that occurs there. With an
  empty industry the claim adds 15 (the empty string occurs in every text) and the code
  adds nothing: 50 against 65. With the connection \<^verbatim>\<open>Investor Seed\<close> and the role
  \<^verbatim>\<open>Investor\<close> followed by the rationale \<^verbatim>\<open>seed round\<close>, the code, which joins the three
  fields with single spaces, adds 10, and the claim, which joins them with nothing
  between, adds nothing: 60 against 50.
\<close>

theorem claimed_final_score_counterexample:
  "context_score lower_latin1 (Some no_industry) example_direct = 50
   \<and> claimed_final_score lower_latin1 (Some no_industry) example_direct = 65
   \<and> context_score lower_latin1 (Some example_context) example_direct = 60
   \<and> claimed_final_score lower_latin1 (Some example_context) example_direct = 50"
  by (simp only: context_score_empty_industry claimed_final_score_empty_industry
      context_score_example claimed_final_score_example simp_thms)

text \<open>
  C4, amended. The final score is the warm score when there is no context. With a context
  it is the warm score, plus 15 if the lower case of the industry is not empty and occurs
  in the lower case of the text made of role, rationale and relationship type joined by
  single spaces (a missing field counting as empty), plus 10 for each entry of the
  connections whose lower case occurs in that text. Lower case is what \<^verbatim>\<open>str.lower\<close>
  returns: the statement holds for every function \<open>lower\<close>.
\<close>

theorem final_score_boosts:
  "final_score (with_final_score lower ctx n) =
     warm_score n +
     (case ctx of
        None \<Rightarrow> 0
      | Some c \<Rightarrow>
          (if lower (industry c) \<noteq> [] \<and>
              sublist (lower (industry c))
                (lower (or_empty (role n) @ '' '' @ or_empty (why_warm n) @ '' '' @
                        or_empty (relationship_type n)))
           then 15 else 0) +
          10 * int (length (filter
                 (\<lambda>conn. sublist (lower conn)
                    (lower (or_empty (role n) @ '' '' @ or_empty (why_warm n) @ '' '' @
                            or_empty (relationship_type n))))
                 (connections c))))"
  by (cases ctx) (simp_all add: context_score_eq node_text_def)

text \<open>
  C9. When every hop distance is at least 1, the first component of the sort key,
  \<^verbatim>\<open>-x["hop_distance"] == 1\<close>, is false for every node, and the ranking is the stable sort
  by descending final score alone: it is in descending order of final score, and the
  nodes of any one final score stand in the order of the input. The entry point is the
  first node of this ranking and \<^verbatim>\<open>all_nodes\<close> its first eight.
\<close>

theorem sort_nodes_by_final_score:
  assumes "\<forall>n\<in>set nodes. 1 \<le> hop_distance n"
  shows "(\<forall>x\<in>set (map (with_final_score lower ctx) nodes). (- hop_distance x = 1) = False)
     \<and> sort_nodes (map (with_final_score lower ctx) nodes)
         = sort_key (\<lambda>x. - final_score x) (map (with_final_score lower ctx) nodes)
     \<and> sorted_wrt (\<lambda>x y. final_score y \<le> final_score x)
         (sort_nodes (map (with_final_score lower ctx) nodes))
     \<and> (\<forall>k. filter (\<lambda>x. final_score x = k) (sort_nodes (map (with_final_score lower ctx) nodes))
            = filter (\<lambda>x. final_score x = k) (map (with_final_score lower ctx) nodes))
     \<and> (\<forall>r. nodes \<noteq> [] \<and> find_best_path lower nodes ctx = Inr r \<longrightarrow>
            entry_point r
              = Some (path_entry_of (hd (sort_key (\<lambda>x. - final_score x)
                                           (map (with_final_score lower ctx) nodes))))
          \<and> all_nodes r
              = Some (map summary_of (take 8 (sort_key (\<lambda>x. - final_score x)
                                                (map (with_final_score lower ctx) nodes)))))"
proof -
  let ?scored = "map (with_final_score lower ctx) nodes"
  have flag: "\<forall>x\<in>set ?scored. (- hop_distance x = 1) = False"
    using assms by auto
  have "\<forall>x\<in>set ?scored. hop_distance x \<noteq> - 1"
    using assms by auto
  then have eq: "sort_nodes ?scored = sort_key (\<lambda>x. - final_score x) ?scored"
    by (rule sort_nodes_by_score)
  have "sorted (map (\<lambda>x. - final_score x) (sort_key (\<lambda>x. - final_score x) ?scored))"
    by (rule sorted_sort_key)
  then have desc: "sorted_wrt (\<lambda>x y. final_score y \<le> final_score x) (sort_nodes ?scored)"
    unfolding eq by (simp add: sorted_map)
  have stable: "filter (\<lambda>x. final_score x = k) (sort_nodes ?scored)
      = filter (\<lambda>x. final_score x = k) ?scored" for k
    using sort_key_stable [of "\<lambda>x. - final_score x" "- k" ?scored] unfolding eq by simp
  have out: "entry_point r = Some (path_entry_of (hd (sort_key (\<lambda>x. - final_score x) ?scored)))
      \<and> all_nodes r = Some (map summary_of (take 8 (sort_key (\<lambda>x. - final_score x) ?scored)))"
    if "nodes \<noteq> []" and "find_best_path lower nodes ctx = Inr r" for r
  proof -
    from that(1) obtain entry rest where ranked: "sort_nodes ?scored = entry # rest"
      by (cases "sort_nodes ?scored") simp_all
    with that show ?thesis
      unfolding eq [symmetric]
      by (auto simp add: find_best_path_eq and_then_Inr_iff hd_path_of)
  qed
  from flag eq desc stable out show ?thesis
    by blast
qed

lemma context_score_accented:
  "context_score lower_latin1 (Some accented_context) example_accented = 65"
  by code_simp

theorem final_score_boosts_witness:
  "final_score (with_final_score lower_latin1 None example_direct) = 50
   \<and> final_score (with_final_score lower_latin1 (Some no_industry) example_direct) = 50
   \<and> final_score (with_final_score lower_latin1 (Some example_context) example_direct) = 60
   \<and> final_score (with_final_score lower_latin1 (Some accented_context) example_accented) = 65"
proof -
  have "final_score (with_final_score lower_latin1 None example_direct) = 50"
    using final_score_boosts [where lower = lower_latin1 and ctx = None and n = example_direct]
    by (simp add: example_direct_def)
  moreover have "final_score (with_final_score lower_latin1 (Some no_industry) example_direct) = 50"
    using final_score_boosts
      [where lower = lower_latin1 and ctx = "Some no_industry" and n = example_direct]
    by (simp add: example_direct_def no_industry_def lower_latin1_def)
  moreover have "final_score (with_final_score lower_latin1 (Some example_context) example_direct) = 60"
    by (simp add: context_score_example)
  moreover have
    "final_score (with_final_score lower_latin1 (Some accented_context) example_accented) = 65"
    by (simp add: context_score_accented)
  ultimately show ?thesis
    by blast
qed

subsection \<open>Runs of the path finder\<close>

lemma sorts_stably_sort_key: "sorts_stably key xs (sort_key key xs)"
proof -
  have "filter (\<lambda>x. key k = key x) (sort_key key xs) = filter (\<lambda>x. key k = key x) xs" for k
    using sort_key_stable [of key "key k" xs] by (simp add: eq_commute)
  then show ?thesis
    by (simp add: sorts_stably_def list_all_iff)
qed

lemma sorts_stably_unique:
  assumes "sorts_stably key xs ys"
  shows "ys = sort_key key xs"
proof -
  from assms have m: "mset ys = mset xs" and s: "sorted (map key ys)"
    and f: "\<And>k. k \<in> set ys \<Longrightarrow>
          filter (\<lambda>x. key k = key x) ys = filter (\<lambda>x. key k = key x) xs"
    by (simp_all add: sorts_stably_def list_all_iff)
  have "sort_key key xs = ys"
    using m f s by (rule properties_for_sort_key)
  then show ?thesis ..
qed

lemma find_best_path_ranking:
  assumes "nodes \<noteq> []"
  shows "find_best_path lower nodes ctx
     = result_of_ranking (sort_nodes (map (with_final_score lower ctx) nodes))"
  using assms by (simp add: find_best_path_def result_of_ranking_def Let_def)

lemma find_best_path_run_iff:
  "find_best_path_run lower nodes ctx scored_nodes outcome \<longleftrightarrow>
     outcome = find_best_path lower nodes ctx
     \<and> (nodes \<noteq> [] \<longrightarrow> scored_nodes = sort_nodes (map (with_final_score lower ctx) nodes))"
proof (cases "nodes = []")
  case True
  then show ?thesis
    by (simp add: find_best_path_run_def find_best_path_def)
next
  case False
  then show ?thesis
    using sorts_stably_unique
      [of "\<lambda>x. ((- hop_distance x) = 1, - final_score x)"
        "map (with_final_score lower ctx) nodes" scored_nodes]
      sorts_stably_sort_key
      [of "\<lambda>x. ((- hop_distance x) = 1, - final_score x)"
        "map (with_final_score lower ctx) nodes"]
    by (auto simp add: find_best_path_run_def find_best_path_ranking sort_nodes_def)
qed

text \<open>
  C7. Two runs on the same rows in the same order and with the same context can differ
  only in the list that the sort leaves, and the promise of the sort, a stable sort by
  the key, allows one list only. So every run has the same outcome: the same error, or
  records equal in the path, the hop count, the path score, the entry point and the list
  of all nodes. The outcome is the value of \<^const>\<open>find_best_path\<close>, which is itself a run,
  the one whose sort is an insertion sort.
\<close>

theorem find_best_path_deterministic:
  "find_best_path_run lower nodes ctx (sort_nodes (map (with_final_score lower ctx) nodes))
     (find_best_path lower nodes ctx)
   \<and> (\<forall>scored_nodes scored_nodes' outcome outcome'.
        find_best_path_run lower nodes ctx scored_nodes outcome
        \<and> find_best_path_run lower nodes ctx scored_nodes' outcome' \<longrightarrow>
        outcome' = outcome
        \<and> outcome = find_best_path lower nodes ctx
        \<and> (\<forall>r r'. outcome = Inr r \<and> outcome' = Inr r' \<longrightarrow>
              path r' = path r \<and> total_hops r' = total_hops r \<and> path_score r' = path_score r
              \<and> entry_point r' = entry_point r \<and> all_nodes r' = all_nodes r))"
  by (auto simp add: find_best_path_run_iff)

subsection \<open>Instances\<close>

lemma floats_warmer:
  "\<lfloor>b64_round (b64_round (b64_round (b64_round (of_int 115 / of_int 3) * b64_round (6 / 10))
              + of_int 0) + of_int 3)\<rfloor> = 26"
  by code_simp

lemma score_from_warmer: "score_from 115 3 0 3 = Inr 26"
proof -
  have "score_from 115 3 0 3 =
     Inr (min (max \<lfloor>b64_round (b64_round (b64_round (b64_round (of_int 115 / of_int 3)
                        * b64_round (6 / 10)) + of_int 0) + of_int 3)\<rfloor> 10) 99)"
    by (rule score_from_wf) simp_all
  also have "\<dots> = Inr 26"
    unfolding floats_warmer by simp
  finally show ?thesis .
qed

lemma calculate_access_score_warmer:
  "calculate_access_score (set_warm_score example_trio 0 45) = Inr 26"
proof -
  have "calculate_access_score (set_warm_score example_trio 0 45) = score_from 115 3 0 3"
    by (simp add: calculate_access_score_eq set_warm_score_def example_trio_def example_row_def)
  then show ?thesis
    by (simp only: score_from_warmer)
qed

theorem calculate_access_score_monotone_witness:
  "(0::nat) < length example_trio \<and> warm_score (example_trio ! 0) \<le> 45
   \<and> calculate_access_score example_trio = Inr 24
   \<and> calculate_access_score (set_warm_score example_trio 0 45) = Inr 26
   \<and> (24::int) \<le> 26"
proof -
  have i: "(0::nat) < length example_trio" and w: "warm_score (example_trio ! 0) \<le> 45"
    by (simp_all add: example_trio_def example_row_def)
  from calculate_access_score_monotone [OF i w]
  have "\<forall>s s'. calculate_access_score example_trio = Inr s
          \<and> calculate_access_score (set_warm_score example_trio 0 45) = Inr s' \<longrightarrow> s \<le> s'"
    by blast
  with calculate_access_score_trio calculate_access_score_warmer have "(24::int) \<le> 26"
    by blast
  with i w calculate_access_score_trio calculate_access_score_warmer show ?thesis
    by blast
qed

theorem sort_nodes_by_final_score_witness:
  "list_all (\<lambda>n. 1 \<le> hop_distance n) [example_indirect, example_direct]
   \<and> sort_nodes (map (with_final_score lower_latin1 None) [example_indirect, example_direct])
       = sort_key (\<lambda>x. - final_score x)
           (map (with_final_score lower_latin1 None) [example_indirect, example_direct])
   \<and> sort_nodes (map (with_final_score lower_latin1 None) [example_indirect, example_direct])
       = [with_final_score lower_latin1 None example_indirect, with_final_score lower_latin1 None example_direct]"
proof -
  have h: "\<forall>n\<in>set [example_indirect, example_direct]. 1 \<le> hop_distance n"
    by (simp add: example_indirect_def example_direct_def)
  from sort_nodes_by_final_score [OF h, where lower = lower_latin1 and ctx = None]
  have "sort_nodes (map (with_final_score lower_latin1 None) [example_indirect, example_direct])
       = sort_key (\<lambda>x. - final_score x)
           (map (with_final_score lower_latin1 None) [example_indirect, example_direct])"
    by blast
  with h sort_nodes_example [where lower = lower_latin1] show ?thesis
    by (simp add: list_all_iff)
qed

theorem find_best_path_shape_witness:
  "[example_indirect, example_direct] \<noteq> []
   \<and> list_all (\<lambda>n. 0 \<le> warm_score n \<and> warm_score n \<le> 100) [example_indirect, example_direct]
   \<and> (\<exists>r bridge. find_best_path lower_latin1 [example_indirect, example_direct] None = Inr r
         \<and> entry_point r = Some (path_entry_of (with_final_score lower_latin1 None example_indirect))
         \<and> path r = [path_entry_of (with_final_score lower_latin1 None example_indirect),
                      path_entry_of bridge]
         \<and> p_hop (path_entry_of bridge) = 1)"
proof -
  let ?nodes = "[example_indirect, example_direct]"
  have ne: "?nodes \<noteq> []"
    by simp
  have wf: "\<forall>n\<in>set ?nodes. 0 \<le> warm_score n \<and> warm_score n \<le> 100"
    by (simp add: example_indirect_def example_direct_def)
  have hops: "1 < hop_distance (with_final_score lower_latin1 None example_indirect)"
    "\<exists>n\<in>set ?nodes. hop_distance n = 1"
    by (simp_all add: example_indirect_def example_direct_def)
  from find_best_path_shape [OF ne, where lower = lower_latin1 and ctx = None] wf obtain entry rest r where
    ranked: "sort_nodes (map (with_final_score lower_latin1 None) ?nodes) = entry # rest"
    and r: "find_best_path lower_latin1 ?nodes None = Inr r"
    and shape: "entry_point r = Some (path_entry_of entry)
      \<and> (if 1 < hop_distance entry \<and> (\<exists>n\<in>set ?nodes. hop_distance n = 1)
         then \<exists>bridge. find (\<lambda>n. hop_distance n = 1) (entry # rest) = Some bridge
                \<and> path r = [path_entry_of entry, path_entry_of bridge]
                \<and> 1 < p_hop (path_entry_of entry) \<and> p_hop (path_entry_of bridge) = 1
         else path r = [path_entry_of entry])
      \<and> (length (path r) = 1 \<or> length (path r) = 2)"
    by blast
  from ranked have entry: "entry = with_final_score lower_latin1 None example_indirect"
    using sort_nodes_example [where lower = lower_latin1] by simp
  with shape hops obtain bridge where
    "path r = [path_entry_of entry, path_entry_of bridge]" "p_hop (path_entry_of bridge) = 1"
    by auto
  with ne r shape entry have "\<exists>r bridge. find_best_path lower_latin1 ?nodes None = Inr r
         \<and> entry_point r = Some (path_entry_of (with_final_score lower_latin1 None example_indirect))
         \<and> path r = [path_entry_of (with_final_score lower_latin1 None example_indirect),
                      path_entry_of bridge]
         \<and> p_hop (path_entry_of bridge) = 1"
    by blast
  with wf show ?thesis
    by (simp add: list_all_iff)
qed

lemma sort_nodes_trio:
  "sort_nodes (map (with_final_score lower None) example_trio)
     = map (with_final_score lower None) example_trio"
  by (simp add: sort_nodes_def context_score_def example_trio_def example_row_def
      less_eq_prod_def)

lemma find_best_path_trio:
  "find_best_path lower example_trio None =
     Inr \<lparr>path = [path_entry_of (with_final_score lower None (example_row ''n3'' 40))],
          total_hops = 3, path_score = 40,
          entry_point = Some (path_entry_of (with_final_score lower None (example_row ''n3'' 40))),
          all_nodes = Some [summary_of (with_final_score lower None (example_row ''n3'' 40)),
                            summary_of (with_final_score lower None (example_row ''n4'' 35)),
                            summary_of (with_final_score lower None (example_row ''n5'' 35))]\<rparr>"
proof -
  have t: "truediv 40 1 = Inr 40"
    using truediv_exact [of 1 40] by simp
  have s: "sort_nodes [with_final_score lower None (example_row ''n3'' 40),
      with_final_score lower None (example_row ''n4'' 35),
      with_final_score lower None (example_row ''n5'' 35)]
    = [with_final_score lower None (example_row ''n3'' 40),
      with_final_score lower None (example_row ''n4'' 35),
      with_final_score lower None (example_row ''n5'' 35)]"
    using sort_nodes_trio [of lower] by (simp add: example_trio_def)
  have h: "hop_distance (example_row i w) = 2" "warm_score (example_row i w) = w" for i w
    by (simp_all add: example_row_def)
  show ?thesis
    by (simp add: find_best_path_eq example_trio_def s path_of_def h t max_hop_def py_int_def)
qed

theorem find_best_path_deterministic_witness:
  "find_best_path_run lower_latin1 example_trio None
     (map (with_final_score lower_latin1 None) example_trio)
     (find_best_path lower_latin1 example_trio None)
   \<and> find_best_path lower_latin1 example_trio None =
       Inr \<lparr>path = [path_entry_of (with_final_score lower_latin1 None (example_row ''n3'' 40))],
            total_hops = 3, path_score = 40,
            entry_point =
              Some (path_entry_of (with_final_score lower_latin1 None (example_row ''n3'' 40))),
            all_nodes =
              Some [summary_of (with_final_score lower_latin1 None (example_row ''n3'' 40)),
                    summary_of (with_final_score lower_latin1 None (example_row ''n4'' 35)),
                    summary_of (with_final_score lower_latin1 None (example_row ''n5'' 35))]\<rparr>
   \<and> \<not> find_best_path_run lower_latin1 example_trio None
       [with_final_score lower_latin1 None (example_row ''n3'' 40),
        with_final_score lower_latin1 None (example_row ''n5'' 35),
        with_final_score lower_latin1 None (example_row ''n4'' 35)]
       (result_of_ranking
          [with_final_score lower_latin1 None (example_row ''n3'' 40),
           with_final_score lower_latin1 None (example_row ''n5'' 35),
           with_final_score lower_latin1 None (example_row ''n4'' 35)])"
proof -
  let ?swapped = "[with_final_score lower_latin1 None (example_row ''n3'' 40),
        with_final_score lower_latin1 None (example_row ''n5'' 35),
        with_final_score lower_latin1 None (example_row ''n4'' 35)]"
  note det = find_best_path_deterministic [where lower = lower_latin1 and nodes = example_trio
      and ctx = None]
  from det have run: "find_best_path_run lower_latin1 example_trio None
     (map (with_final_score lower_latin1 None) example_trio)
     (find_best_path lower_latin1 example_trio None)"
    by (simp only: sort_nodes_trio)
  have differ: "summary_of (with_final_score lower_latin1 None (example_row ''n5'' 35))
      \<noteq> summary_of (with_final_score lower_latin1 None (example_row ''n4'' 35))"
    by (simp add: summary_of_def with_final_score_def node.defs scored_node.defs
        example_row_def)
  have no_run: "\<not> find_best_path_run lower_latin1 example_trio None ?swapped
      (result_of_ranking ?swapped)"
  proof
    assume "find_best_path_run lower_latin1 example_trio None ?swapped
      (result_of_ranking ?swapped)"
    with run det have "result_of_ranking ?swapped = find_best_path lower_latin1 example_trio None"
      by blast
    moreover have "\<exists>r. result_of_ranking ?swapped = Inr r
        \<and> all_nodes r = Some (map summary_of ?swapped)"
    proof -
      have t: "truediv 40 1 = Inr 40"
        using truediv_exact [of 1 40] by simp
      have h: "hop_distance (example_row i w) = 2" "warm_score (example_row i w) = w" for i w
        by (simp_all add: example_row_def)
      show ?thesis
        by (simp add: result_of_ranking_def build_path_def h t)
    qed
    ultimately show False
      using differ by (auto simp add: find_best_path_trio)
  qed
  from run find_best_path_trio [of lower_latin1] no_run show ?thesis
    by blast
qed

end
